theory Spec2Isabelle
  imports Main
begin

section \<open>Strings, locators and idents\<close>

text \<open>
  JavaScript strings are modelled as \<open>string\<close> (lists of characters).
  \<open>indexOf\<close> is \<open>String.prototype.indexOf\<close> for a one-character needle: the index of
  the first occurrence, or \<open>-1\<close>. \<open>substring\<close> is the one-argument
  \<open>String.prototype.substring\<close>: a start beyond the end gives the empty string.
\<close>

fun indexOf :: "string \<Rightarrow> char \<Rightarrow> int" where
  "indexOf [] c = -1"
| "indexOf (x # xs) c =
     (if x = c then 0 else (let i = indexOf xs c in if i < 0 then -1 else i + 1))"

definition substring :: "string \<Rightarrow> int \<Rightarrow> string" where
  "substring s start = drop (nat start) s"

definition makeLocator :: "string \<Rightarrow> string \<Rightarrow> string" where
  "makeLocator name reference = name @ ''@'' @ reference"

definition makeIdent :: "string \<Rightarrow> string \<Rightarrow> string" where
  "makeIdent name reference =
     (let hashIdx = indexOf reference (CHR ''#'');
          realReference = (if hashIdx \<ge> 0 then substring reference (hashIdx + 1) else reference)
      in makeLocator name realReference)"

section \<open>JavaScript containers\<close>

text \<open>
  A JavaScript \<open>Map\<close> iterates in insertion order, \<open>set\<close> on a present key keeps the
  key's position and replaces the value, \<open>set\<close> on an absent key appends, and
  \<open>delete\<close> removes the entry. It is an association list with distinct keys.
  A JavaScript \<open>Set\<close> is a list without duplicates in insertion order.
  Objects are referred to by address: the index of the object in the store that holds it,
  so that object identity (\<open>===\<close>, \<open>Set<HoisterWorkTree>\<close>, maps keyed by nodes) is
  equality of addresses.
\<close>

type_synonym addr = nat
type_synonym ('k, 'v) jsmap = "('k \<times> 'v) list"

fun map_get :: "('k, 'v) jsmap \<Rightarrow> 'k \<Rightarrow> 'v option" where
  "map_get [] k = None"
| "map_get ((k', v) # m) k = (if k' = k then Some v else map_get m k)"

fun map_set :: "'k \<Rightarrow> 'v \<Rightarrow> ('k, 'v) jsmap \<Rightarrow> ('k, 'v) jsmap" where
  "map_set k v [] = [(k, v)]"
| "map_set k v ((k', v') # m) = (if k' = k then (k, v) # m else (k', v') # map_set k v m)"

fun map_delete :: "'k \<Rightarrow> ('k, 'v) jsmap \<Rightarrow> ('k, 'v) jsmap" where
  "map_delete k [] = []"
| "map_delete k ((k', v') # m) = (if k' = k then map_delete k m else (k', v') # map_delete k m)"

definition map_has :: "('k, 'v) jsmap \<Rightarrow> 'k \<Rightarrow> bool" where
  "map_has m k = (map_get m k \<noteq> None)"

definition map_values :: "('k, 'v) jsmap \<Rightarrow> 'v list" where
  "map_values m = map snd m"

definition set_has :: "'a list \<Rightarrow> 'a \<Rightarrow> bool" where
  "set_has xs x = (x \<in> set xs)"

definition set_add :: "'a \<Rightarrow> 'a list \<Rightarrow> 'a list" where
  "set_add x xs = (if x \<in> set xs then xs else xs @ [x])"

definition set_delete :: "'a \<Rightarrow> 'a list \<Rightarrow> 'a list" where
  "set_delete x xs = filter (\<lambda>y. y \<noteq> x) xs"

text \<open>
  \<open>for_each\<close> is a \<open>for (const x of xs)\<close> loop whose body may not return (out of fuel):
  the state is threaded through the elements in order.
\<close>

fun for_each :: "('a \<Rightarrow> 's \<Rightarrow> 's option) \<Rightarrow> 'a list \<Rightarrow> 's \<Rightarrow> 's option" where
  "for_each f [] s = Some s"
| "for_each f (x # xs) s = (case f x s of None \<Rightarrow> None | Some s' \<Rightarrow> for_each f xs s')"

section \<open>Data model\<close>

text \<open>
  \<open>HoisterTree\<close> is the caller's input node; its \<open>dependencies\<close> are a
  \<open>Set<HoisterTree>\<close>, here the addresses of the children in the input store.
\<close>

record HoisterTree =
  t_name :: string
  t_reference :: string
  t_dependencies :: "addr list"
  t_peerNames :: "string list"

text \<open>
  The text of a rejection reason is kept before rendering: the constructor is the message,
  its arguments are the locators the message prints and the root path it names.
\<close>

datatype reason =
    IsPeerDependencyAt "addr list"
  | ConflictsWith "addr list"
  | FilledByAtRoot string "addr list"
  | FilledByAtParent string string
  | PreferredPackage string "addr list"
  | HoistedDependencyAbsent string "addr list"
  | HoistedDependencyClash string string "addr list"
  | PeerDependencyNotHoisted string string "addr list"
  | NoReason

record HoisterWorkTree =
  name :: string
  references :: "string list"
  ident :: string
  locator :: string
  dependencies :: "(string, addr) jsmap"
  originalDependencies :: "(string, addr) jsmap"
  hoistedDependencies :: "(string, addr) jsmap"
  relayedDependencies :: "(string, addr) jsmap"
  peerNames :: "string list"
  reasons :: "(string, addr \<times> reason) jsmap"

record HoisterResult =
  r_name :: string
  r_references :: "string list"
  r_dependencies :: "addr list"

text \<open>
  The object literal that \<open>cloneTree\<close> builds for the root and, in \<open>addNode\<close>, for
  every input node it sees for the first time.
\<close>

definition newWorkNode :: "string \<Rightarrow> string \<Rightarrow> string list \<Rightarrow> HoisterWorkTree" where
  "newWorkNode nm reference pn =
     \<lparr> name = nm,
       references = [reference],
       ident = makeIdent nm reference,
       locator = makeLocator nm reference,
       dependencies = [],
       originalDependencies = [],
       hoistedDependencies = [],
       relayedDependencies = [],
       peerNames = pn,
       reasons = [] \<rparr>"

section \<open>Options\<close>

text \<open>
  A JavaScript number that holds a debug level: an integer, or \<open>NaN\<close> (what
  \<open>Number\<close> gives for an environment string that is not a number). \<open>truthy\<close> is
  JavaScript's truthiness, which \<open>||\<close> tests: \<open>0\<close> and \<open>NaN\<close> are falsy.
  \<open>num_ge\<close> is \<open>>=\<close>, false on \<open>NaN\<close>.
\<close>

datatype number = Num int | NaN

fun truthy :: "number \<Rightarrow> bool" where
  "truthy (Num i) = (i \<noteq> 0)"
| "truthy NaN = False"

fun num_ge :: "number \<Rightarrow> int \<Rightarrow> bool" where
  "num_ge (Num i) k = (i \<ge> k)"
| "num_ge NaN k = False"

record HoistOptions =
  opt_check :: "bool option"
  opt_debugLevel :: "number option"

record InternalHoistOptions =
  check :: bool
  debugLevel :: number

text \<open>
  Lines 58 to 60 of \<open>hoist\<close>. \<open>env\<close> is \<open>process.env.NM_DEBUG_LEVEL\<close> (\<open>None\<close>
  when unset) and \<open>Number\<close> on strings is the parameter \<open>toNumber\<close>.
  \<open>a || b\<close> is \<open>a\<close> when \<open>a\<close> is truthy and \<open>b\<close> otherwise; \<open>undefined\<close> and the
  empty string are falsy.
\<close>

definition envDebugLevel :: "(string \<Rightarrow> number) \<Rightarrow> string option \<Rightarrow> number" where
  "envDebugLevel toNumber env =
     (case env of
        None \<Rightarrow> Num (-1)
      | Some s \<Rightarrow> if s \<noteq> [] then toNumber s else Num (-1))"

definition effectiveDebugLevel :: "(string \<Rightarrow> number) \<Rightarrow> string option \<Rightarrow> HoistOptions \<Rightarrow> number" where
  "effectiveDebugLevel toNumber env opts =
     (case opt_debugLevel opts of
        None \<Rightarrow> envDebugLevel toNumber env
      | Some d \<Rightarrow> if truthy d then d else envDebugLevel toNumber env)"

definition internalOptions :: "(string \<Rightarrow> number) \<Rightarrow> string option \<Rightarrow> HoistOptions \<Rightarrow> InternalHoistOptions" where
  "internalOptions toNumber env opts =
     (let dl = effectiveDebugLevel toNumber env opts;
          chk = ((case opt_check opts of Some True \<Rightarrow> True | _ \<Rightarrow> False) \<or> num_ge dl 9)
      in \<lparr> check = chk, debugLevel = dl \<rparr>)"

section \<open>The work store and the outcome of a call\<close>

text \<open>
  Work nodes live in a store, a list indexed by address; a new object is appended, so the
  address of a new node is the length of the store. A call that does not return within
  its fuel is \<open>None\<close>; a call that throws is \<open>Some (Inl e)\<close>.
  \<open>TypeError\<close> is the error of reading a property of \<open>undefined\<close>;
  \<open>CheckError\<close> is the \<open>Error\<close> that carries the log of the self check
  (the hoisting path and the tree dump of its message are not modelled).
\<close>

type_synonym heap = "HoisterWorkTree list"

datatype error = TypeError | CheckError string

type_synonym 'a result = "(error + 'a) option"

fun for_each_r :: "('a \<Rightarrow> 's \<Rightarrow> 's result) \<Rightarrow> 'a list \<Rightarrow> 's \<Rightarrow> 's result" where
  "for_each_r f [] s = Some (Inr s)"
| "for_each_r f (x # xs) s =
     (case f x s of
        None \<Rightarrow> None
      | Some (Inl e) \<Rightarrow> Some (Inl e)
      | Some (Inr s') \<Rightarrow> for_each_r f xs s')"

section \<open>cloneTree\<close>

text \<open>
  The two \<open>set\<close> calls of \<open>addNode\<close>:
  \<open>parentNode.dependencies.set(workNode.name, workNode)\<close> and the same on
  \<open>originalDependencies\<close>.
\<close>

definition linkDependency :: "addr \<Rightarrow> addr \<Rightarrow> heap \<Rightarrow> heap" where
  "linkDependency parentNode workNode h =
     (let nm = name (h ! workNode); p = h ! parentNode
      in h[parentNode := p\<lparr> dependencies := map_set nm workNode (dependencies p),
                              originalDependencies := map_set nm workNode (originalDependencies p) \<rparr>])"

text \<open>
  \<open>addNode\<close> of \<open>cloneTree\<close>. \<open>ih\<close> is the input store, which is only read.
  The state is the work store and \<open>seenNodes\<close>, the map from input nodes to work nodes.
\<close>

fun addNode :: "nat \<Rightarrow> HoisterTree list \<Rightarrow> addr \<Rightarrow> addr \<Rightarrow> heap \<times> (addr, addr) jsmap
                  \<Rightarrow> (heap \<times> (addr, addr) jsmap) option" where
  "addNode 0 ih node parentNode st = None"
| "addNode (Suc n) ih node parentNode st =
     (let h = fst st; seenNodes = snd st in
      case map_get seenNodes node of
        Some workNode \<Rightarrow> Some (linkDependency parentNode workNode h, seenNodes)
      | None \<Rightarrow>
          (let workNode = length h;
               h1 = h @ [newWorkNode (t_name (ih ! node)) (t_reference (ih ! node)) (t_peerNames (ih ! node))];
               seen1 = map_set node workNode seenNodes;
               h2 = linkDependency parentNode workNode h1
           in for_each (\<lambda>dep. addNode n ih dep workNode) (t_dependencies (ih ! node)) (h2, seen1)))"

definition cloneTree_nodes :: "nat \<Rightarrow> HoisterTree list \<Rightarrow> addr \<Rightarrow> (heap \<times> (addr, addr) jsmap) option" where
  "cloneTree_nodes fuel ih tree =
     (let treeCopy = 0;
          h = [newWorkNode (t_name (ih ! tree)) (t_reference (ih ! tree)) (t_peerNames (ih ! tree))];
          seenNodes = [(tree, treeCopy)]
      in for_each (\<lambda>dep. addNode fuel ih dep treeCopy) (t_dependencies (ih ! tree)) (h, seenNodes))"

text \<open>\<open>cloneTree\<close> returns \<open>treeCopy\<close>, the node at address 0 of the new work store.\<close>

definition cloneTree :: "nat \<Rightarrow> HoisterTree list \<Rightarrow> addr \<Rightarrow> (heap \<times> addr) option" where
  "cloneTree fuel ih tree = map_option (\<lambda>st. (fst st, 0)) (cloneTree_nodes fuel ih tree)"

section \<open>buildAncestorMap\<close>

type_synonym AncestorMap = "(string, string list) jsmap"

fun addParent :: "nat \<Rightarrow> heap \<Rightarrow> addr \<Rightarrow> addr \<Rightarrow> AncestorMap \<times> addr list
                   \<Rightarrow> (AncestorMap \<times> addr list) option" where
  "addParent 0 h parentNode node st = None"
| "addParent (Suc n) h parentNode node st =
     (let ancestorMap = fst st; seenNodes = snd st;
          isSeen = set_has seenNodes node;
          parents = (case map_get ancestorMap (ident (h ! node)) of None \<Rightarrow> [] | Some ps \<Rightarrow> ps);
          ancestorMap1 = map_set (ident (h ! node)) (set_add (ident (h ! parentNode)) parents) ancestorMap
      in if \<not> isSeen then
           for_each (\<lambda>dep s. if \<not> set_has (peerNames (h ! node)) (name (h ! dep))
                              then addParent n h node dep s else Some s)
             (map_values (dependencies (h ! node))) (ancestorMap1, set_add node seenNodes)
         else Some (ancestorMap1, seenNodes))"

definition buildAncestorMap :: "nat \<Rightarrow> heap \<Rightarrow> addr \<Rightarrow> AncestorMap option" where
  "buildAncestorMap fuel h tree =
     map_option fst
       (for_each (\<lambda>dep s. if \<not> set_has (peerNames (h ! tree)) (name (h ! dep))
                           then addParent fuel h tree dep s else Some s)
          (map_values (dependencies (h ! tree))) ([], [tree]))"

section \<open>getHoistCandidates\<close>

type_synonym Tuple = "addr \<times> addr"

text \<open>\<open>tuple_parent\<close> and \<open>tuple_node\<close> are the fields \<open>parent\<close> and \<open>node\<close> of a \<open>Tuple\<close>.\<close>

definition tuple_parent :: "Tuple \<Rightarrow> addr" where "tuple_parent t = fst t"
definition tuple_node :: "Tuple \<Rightarrow> addr" where "tuple_node t = snd t"

record HoistCandidateSet =
  hc_node :: addr
  hc_weight :: nat
  hc_candidates :: "(addr list \<times> addr) list"

type_synonym HoistCandidates = "(string, HoistCandidateSet) jsmap"

definition isRegularDepAtRoot :: "heap \<Rightarrow> addr \<Rightarrow> addr \<Rightarrow> bool" where
  "isRegularDepAtRoot h rootNode node = (\<not> set_has (peerNames (h ! rootNode)) (name (h ! node)))"

definition isCompatibleIdent :: "heap \<Rightarrow> addr \<Rightarrow> addr \<Rightarrow> bool" where
  "isCompatibleIdent h rootNode node =
     (name (h ! rootNode) \<noteq> name (h ! node) \<or> ident (h ! rootNode) = ident (h ! node))"

text \<open>
  The loop over \<open>parents\<close> of lines 244 to 253: the first tuple whose parent has a
  dependency or a relayed dependency of the node's name with another ident, with the node
  \<open>parentDep || relayedDep\<close> that the reason names.
\<close>

fun blockingParent :: "heap \<Rightarrow> addr \<Rightarrow> Tuple list \<Rightarrow> (addr \<times> addr) option" where
  "blockingParent h node [] = None"
| "blockingParent h node (t # ts) =
     (let parentDep = map_get (dependencies (h ! tuple_parent t)) (name (h ! node));
          relayedDep = map_get (relayedDependencies (h ! tuple_parent t)) (name (h ! node))
      in if (case parentDep of Some d \<Rightarrow> ident (h ! d) \<noteq> ident (h ! node) | None \<Rightarrow> False)
            \<or> (case relayedDep of Some d \<Rightarrow> ident (h ! d) \<noteq> ident (h ! node) | None \<Rightarrow> False)
         then Some (case parentDep of Some d \<Rightarrow> d | None \<Rightarrow> the relayedDep, tuple_parent t)
         else blockingParent h node ts)"

definition origRootDepFits :: "heap \<Rightarrow> addr \<Rightarrow> addr \<Rightarrow> bool" where
  "origRootDepFits h rootNode node =
     (case map_get (originalDependencies (h ! rootNode)) (name (h ! node)) of
        None \<Rightarrow> True
      | Some origRootDep \<Rightarrow> ident (h ! origRootDep) = ident (h ! node))"

definition isNameAvailable :: "heap \<Rightarrow> addr \<Rightarrow> Tuple list \<Rightarrow> addr \<Rightarrow> bool" where
  "isNameAvailable h rootNode parents node =
     (origRootDepFits h rootNode node \<and> blockingParent h node parents = None)"

definition isPreferred :: "HoistCandidateSet option \<Rightarrow> nat \<Rightarrow> bool" where
  "isPreferred competitorInfo weight =
     (case competitorInfo of None \<Rightarrow> True | Some c \<Rightarrow> hc_weight c \<le> weight)"

text \<open>
  The loop of lines 272 to 288 over \<open>node.hoistedDependencies.values()\<close>, up to its
  \<open>break\<close>: the reason of the first hoisted dependency that the ancestors do not satisfy.
\<close>

fun unsatisfiedHoistedDep :: "heap \<Rightarrow> (string, addr) jsmap \<Rightarrow> addr \<Rightarrow> addr list \<Rightarrow> addr list \<Rightarrow> reason option" where
  "unsatisfiedHoistedDep h ancestorDependencies node rootNodePath [] = None"
| "unsatisfiedHoistedDep h ancestorDependencies node rootNodePath (dep # deps) =
     (if map_has (originalDependencies (h ! node)) (name (h ! dep)) then
        (case map_get ancestorDependencies (name (h ! dep)) of
           None \<Rightarrow> Some (HoistedDependencyAbsent (locator (h ! dep)) rootNodePath)
         | Some depNode \<Rightarrow>
             if ident (h ! depNode) \<noteq> ident (h ! dep)
             then Some (HoistedDependencyClash (locator (h ! dep)) (locator (h ! depNode)) rootNodePath)
             else unsatisfiedHoistedDep h ancestorDependencies node rootNodePath deps)
      else unsatisfiedHoistedDep h ancestorDependencies node rootNodePath deps)"

text \<open>
  Line 268 and the guard of line 269: with a dependency of the node's name at the root the
  loop is not run.
\<close>

definition regularDepsFailure :: "heap \<Rightarrow> addr \<Rightarrow> (string, addr) jsmap \<Rightarrow> addr list \<Rightarrow> addr \<Rightarrow> reason option" where
  "regularDepsFailure h rootNode ancestorDependencies rootNodePath node =
     (if map_has (dependencies (h ! rootNode)) (name (h ! node)) then None
      else unsatisfiedHoistedDep h ancestorDependencies node rootNodePath
             (map_values (hoistedDependencies (h ! node))))"

text \<open>
  The inner loop of lines 297 to 309 for one parent: \<open>Inl d\<close> when the parent has the
  dependency \<open>d\<close> under a name of the check list that is not its peer name (the
  \<open>break\<close>), otherwise \<open>Inr\<close> of the check list after the deletions.
\<close>

fun checkPeersAtParent :: "heap \<Rightarrow> addr \<Rightarrow> string list \<Rightarrow> addr + string list" where
  "checkPeersAtParent h parent [] = Inr []"
| "checkPeersAtParent h parent (nm # rest) =
     (if set_has (peerNames (h ! parent)) nm then
        (case checkPeersAtParent h parent rest of Inl d \<Rightarrow> Inl d | Inr keep \<Rightarrow> Inr (nm # keep))
      else
        (case map_get (dependencies (h ! parent)) nm of
           Some parentDepNode \<Rightarrow> Inl parentDepNode
         | None \<Rightarrow> checkPeersAtParent h parent rest))"

text \<open>
  The outer loop of lines 295 to 313, over the stack from its top (\<open>idx = parents.length - 1\<close>)
  down: the argument is the stack reversed.
\<close>

fun unsatisfiedPeer :: "heap \<Rightarrow> Tuple list \<Rightarrow> string list \<Rightarrow> (addr \<times> addr) option" where
  "unsatisfiedPeer h [] checkList = None"
| "unsatisfiedPeer h (t # below) checkList =
     (case checkPeersAtParent h (tuple_node t) checkList of
        Inl parentDepNode \<Rightarrow> Some (parentDepNode, tuple_node t)
      | Inr checkList' \<Rightarrow> unsatisfiedPeer h below checkList')"

definition peerDepsFailure :: "heap \<Rightarrow> Tuple list \<Rightarrow> addr \<Rightarrow> (addr \<times> addr) option" where
  "peerDepsFailure h parents node = unsatisfiedPeer h (rev parents) (peerNames (h ! node))"

text \<open>
  The predicates of lines 212 to 315 in their order: \<open>None\<close> when the node is hoistable,
  otherwise the reason that the first failing predicate assigns (the variable \<open>reason\<close> is
  assigned only at debug level 2 and read only there).
\<close>

definition rejection :: "heap \<Rightarrow> addr \<Rightarrow> addr list \<Rightarrow> (string, addr) jsmap \<Rightarrow> Tuple list
                          \<Rightarrow> HoistCandidateSet option \<Rightarrow> nat \<Rightarrow> addr \<Rightarrow> reason option" where
  "rejection h rootNode rootNodePath ancestorDependencies parents competitorInfo weight node =
     (if \<not> isRegularDepAtRoot h rootNode node then Some (IsPeerDependencyAt rootNodePath)
      else if \<not> isCompatibleIdent h rootNode node then Some (ConflictsWith rootNodePath)
      else if \<not> origRootDepFits h rootNode node then
        Some (FilledByAtRoot
                (locator (h ! the (map_get (originalDependencies (h ! rootNode)) (name (h ! node)))))
                rootNodePath)
      else case blockingParent h node parents of
        Some (d, p) \<Rightarrow> Some (FilledByAtParent (locator (h ! d)) (locator (h ! p)))
      | None \<Rightarrow>
          if \<not> isPreferred competitorInfo weight then
            Some (PreferredPackage (locator (h ! hc_node (the competitorInfo))) rootNodePath)
          else case regularDepsFailure h rootNode ancestorDependencies rootNodePath node of
            Some r \<Rightarrow> Some r
          | None \<Rightarrow>
              (case peerDepsFailure h parents node of
                 Some (d, p) \<Rightarrow> Some (PeerDependencyNotHoisted (locator (h ! d)) (locator (h ! p)) rootNodePath)
               | None \<Rightarrow> None))"

text \<open>Lines 319 to 324: the candidate is recorded under the node's name.\<close>

definition recordCandidate :: "heap \<Rightarrow> addr list \<Rightarrow> addr \<Rightarrow> nat \<Rightarrow> HoistCandidates \<Rightarrow> HoistCandidates" where
  "recordCandidate h nodePath node weight hoistCandidates =
     (case map_get hoistCandidates (name (h ! node)) of
        None \<Rightarrow>
          map_set (name (h ! node))
            \<lparr> hc_node = node, hc_weight = weight, hc_candidates = [(nodePath, node)] \<rparr> hoistCandidates
      | Some competitorInfo \<Rightarrow>
          if ident (h ! hc_node competitorInfo) \<noteq> ident (h ! node) then
            map_set (name (h ! node))
              \<lparr> hc_node = node, hc_weight = weight, hc_candidates = [(nodePath, node)] \<rparr> hoistCandidates
          else
            map_set (name (h ! node))
              (competitorInfo\<lparr> hc_candidates := hc_candidates competitorInfo @ [(nodePath, node)] \<rparr>)
              hoistCandidates)"

text \<open>Lines 325 to 330: at debug level 2 the reason is stored in the parent's \<open>reasons\<close>.\<close>

definition recordReason :: "addr \<Rightarrow> addr \<Rightarrow> addr \<Rightarrow> reason \<Rightarrow> heap \<Rightarrow> heap" where
  "recordReason rootNode parent node r h =
     (if (case map_get (reasons (h ! parent)) (name (h ! node)) of
            None \<Rightarrow> True
          | Some prevReason \<Rightarrow> fst prevReason = rootNode)
      then h[parent := (h ! parent)\<lparr> reasons := map_set (name (h ! node)) (rootNode, r) (reasons (h ! parent)) \<rparr>]
      else h)"

text \<open>
  Lines 205 to 330 of \<open>computeHoistCandidates\<close>, the part before the recursion.
  \<open>ancestorMap.get(node.ident)!\<close> is \<open>undefined\<close> without an entry and reading its
  \<open>size\<close> throws; \<open>parents[parents.length - 1]\<close> is \<open>undefined\<close> on an empty stack and
  reading its \<open>node\<close> throws. Both happen before the candidate map or the store change.
  The result is the variable \<open>parent\<close>, the candidate map and the store.
\<close>

definition visitNode :: "heap \<Rightarrow> addr \<Rightarrow> addr list \<Rightarrow> (string, addr) jsmap \<Rightarrow> AncestorMap
                          \<Rightarrow> InternalHoistOptions \<Rightarrow> Tuple list \<Rightarrow> addr list \<Rightarrow> addr
                          \<Rightarrow> HoistCandidates \<Rightarrow> error + (addr \<times> HoistCandidates \<times> heap)" where
  "visitNode h rootNode rootNodePath ancestorDependencies ancestorMap options parents nodePath node hoistCandidates =
     (case map_get ancestorMap (ident (h ! node)) of
        None \<Rightarrow> Inl TypeError
      | Some ancestorNode \<Rightarrow>
          (let weight = length ancestorNode;
               competitorInfo = map_get hoistCandidates (name (h ! node))
           in if parents = [] then Inl TypeError
              else
                (let parent = tuple_node (last parents) in
                 case rejection h rootNode rootNodePath ancestorDependencies parents competitorInfo weight node of
                   None \<Rightarrow> Inr (parent, recordCandidate h nodePath node weight hoistCandidates, h)
                 | Some r \<Rightarrow>
                     if num_ge (debugLevel options) 2
                     then Inr (parent, hoistCandidates, recordReason rootNode parent node r h)
                     else Inr (parent, hoistCandidates, h))))"

text \<open>
  \<open>computeHoistCandidates\<close>. The stack \<open>parents\<close> is pushed before the loop over the
  dependencies and popped after it, so it is an argument; the candidate map, the seen
  locators and the store are the state.
\<close>

fun computeHoistCandidates :: "nat \<Rightarrow> addr \<Rightarrow> addr list \<Rightarrow> (string, addr) jsmap \<Rightarrow> AncestorMap
      \<Rightarrow> InternalHoistOptions \<Rightarrow> Tuple list \<Rightarrow> addr list \<Rightarrow> addr
      \<Rightarrow> HoistCandidates \<times> string list \<times> heap \<Rightarrow> (HoistCandidates \<times> string list \<times> heap) result" where
  "computeHoistCandidates 0 rootNode rootNodePath ancestorDependencies ancestorMap options parents nodePath node st = None"
| "computeHoistCandidates (Suc n) rootNode rootNodePath ancestorDependencies ancestorMap options parents nodePath node st =
     (let hoistCandidates = fst st; seenLocators = fst (snd st); h = snd (snd st);
          isSeen = set_has seenLocators (locator (h ! node))
      in case visitNode h rootNode rootNodePath ancestorDependencies ancestorMap options parents nodePath node hoistCandidates of
           Inl e \<Rightarrow> Some (Inl e)
         | Inr (parent, hoistCandidates1, h1) \<Rightarrow>
             if \<not> isSeen then
               for_each_r
                 (\<lambda>dep s. if \<not> set_has (peerNames (snd (snd s) ! node)) (name (snd (snd s) ! dep)) \<and> dep \<notin> set nodePath
                          then computeHoistCandidates n rootNode rootNodePath ancestorDependencies ancestorMap options
                                 (parents @ [(parent, node)]) (nodePath @ [node]) dep s
                          else Some (Inr s))
                 (map_values (dependencies (h1 ! node)))
                 (hoistCandidates1, set_add (locator (h1 ! node)) seenLocators, h1)
             else Some (Inr (hoistCandidates1, seenLocators, h1)))"

text \<open>The body of the loop of lines 345 to 357 over the dependencies of the root.\<close>

definition candidatesBelow :: "nat \<Rightarrow> addr \<Rightarrow> addr list \<Rightarrow> (string, addr) jsmap \<Rightarrow> AncestorMap
      \<Rightarrow> InternalHoistOptions \<Rightarrow> addr
      \<Rightarrow> HoistCandidates \<times> string list \<times> heap \<Rightarrow> (HoistCandidates \<times> string list \<times> heap) result" where
  "candidatesBelow fuel rootNode rootNodePath ancestorDependencies ancestorMap options dep st =
     (let h = snd (snd st) in
      if set_has (peerNames (h ! rootNode)) (name (h ! dep)) then Some (Inr st)
      else
        for_each_r
          (\<lambda>subDep s. if \<not> set_has (peerNames (snd (snd s) ! dep)) (name (snd (snd s) ! subDep))
                       then computeHoistCandidates fuel rootNode rootNodePath ancestorDependencies ancestorMap options
                              [(rootNode, dep)] [dep] subDep s
                       else Some (Inr s))
          (map_values (dependencies (h ! dep)))
          (fst st, set_add (locator (h ! dep)) (fst (snd st)), h))"

text \<open>
  \<open>getHoistCandidates\<close> returns the values of the candidate map in the order of the map;
  the store comes back with the reasons written at debug level 2.
\<close>

definition getHoistCandidates :: "nat \<Rightarrow> heap \<Rightarrow> addr \<Rightarrow> addr list \<Rightarrow> (string, addr) jsmap \<Rightarrow> AncestorMap
      \<Rightarrow> InternalHoistOptions \<Rightarrow> (HoistCandidateSet list \<times> heap) result" where
  "getHoistCandidates fuel h rootNode rootNodePath ancestorDependencies ancestorMap options =
     (case for_each_r (candidatesBelow fuel rootNode rootNodePath ancestorDependencies ancestorMap options)
             (map_values (dependencies (h ! rootNode)))
             ([], [locator (h ! rootNode)], h) of
        None \<Rightarrow> None
      | Some (Inl e) \<Rightarrow> Some (Inl e)
      | Some (Inr st) \<Rightarrow> Some (Inr (map_values (fst st), snd (snd st))))"

section \<open>prettyPrintLocator and the self check\<close>

fun startsWith :: "string \<Rightarrow> string \<Rightarrow> bool" where
  "startsWith s [] = True"
| "startsWith [] (p # ps) = False"
| "startsWith (c # cs) (p # ps) = (c = p \<and> startsWith cs ps)"

text \<open>\<open>replaceFirst pat rep s\<close> is \<open>s.replace(pat, rep)\<close> for a string pattern: the first occurrence.\<close>

fun replaceFirst :: "string \<Rightarrow> string \<Rightarrow> string \<Rightarrow> string" where
  "replaceFirst pat rep [] = (if pat = [] then rep else [])"
| "replaceFirst pat rep (c # cs) =
     (if startsWith (c # cs) pat then rep @ drop (length pat) (c # cs)
      else c # replaceFirst pat rep cs)"

text \<open>\<open>indexOfFrom s c 1\<close> is \<open>s.indexOf(c, 1)\<close>.\<close>

definition indexOfFrom :: "string \<Rightarrow> char \<Rightarrow> nat \<Rightarrow> int" where
  "indexOfFrom s c from =
     (let i = indexOf (drop from s) c in if i < 0 then -1 else i + int (min from (length s)))"

text \<open>\<open>splitSecond s\<close> is \<open>s.split('#')[1]\<close> for a string with a \<open>#\<close>.\<close>

definition splitSecond :: "string \<Rightarrow> string" where
  "splitSecond s = takeWhile (\<lambda>c. c \<noteq> CHR ''#'') (drop 1 (dropWhile (\<lambda>c. c \<noteq> CHR ''#'') s))"

definition prettyPrintLocator :: "string \<Rightarrow> string" where
  "prettyPrintLocator loc =
     (let idx = indexOfFrom loc (CHR ''@'') 1;
          nm = take (nat idx) loc;
          reference = substring loc (idx + 1)
      in if reference = ''workspace:.'' then ''.''
         else if reference = [] then nm
         else
           (let version = replaceFirst ''npm:'' []
                            (if indexOf reference (CHR ''#'') > 0 then splitSecond reference else reference)
            in if startsWith reference ''virtual'' then ''v:'' @ nm @ ''@'' @ version
               else nm @ ''@'' @ version))"

text \<open>\<open>joinWith sep xs\<close> is \<open>xs.join(sep)\<close>. The arrow of the tree path is given in UTF-8.\<close>

fun joinWith :: "string \<Rightarrow> string list \<Rightarrow> string" where
  "joinWith sep [] = []"
| "joinWith sep [x] = x"
| "joinWith sep (x # y # ys) = x @ sep @ joinWith sep (y # ys)"

definition arrow :: string where
  "arrow = [CHR 0xE2, CHR 0x86, CHR 0x92]"

definition prettyPrintTreePath :: "heap \<Rightarrow> addr list \<Rightarrow> addr \<Rightarrow> string" where
  "prettyPrintTreePath h parents node =
     joinWith arrow (map (\<lambda>x. prettyPrintLocator (locator (h ! x))) (parents @ [node]))"

text \<open>
  A copy of a map of visible dependencies with the non-peer dependencies of a node set
  over it: lines 376 to 379 of \<open>checkNode\<close> and lines 118 to 121 of \<open>hoistTo\<close>.
\<close>

definition overlayDependencies :: "heap \<Rightarrow> addr \<Rightarrow> (string, addr) jsmap \<Rightarrow> (string, addr) jsmap" where
  "overlayDependencies h node base =
     foldl (\<lambda>m dep. if \<not> set_has (peerNames (h ! node)) (name (h ! dep)) then map_set (name (h ! dep)) dep m else m)
       base (map_values (dependencies (h ! node)))"

text \<open>
  The body of the loop of lines 381 to 396 for one original dependency. In the peer branch
  the message reads \<open>dep!.locator\<close>, which throws when \<open>dep\<close> is \<open>undefined\<close>.
\<close>

definition checkPromise :: "heap \<Rightarrow> addr list \<Rightarrow> addr \<Rightarrow> (string, addr) jsmap \<Rightarrow> (string, addr) jsmap
                             \<Rightarrow> addr \<Rightarrow> string list \<Rightarrow> (string list) result" where
  "checkPromise h parents node parentDeps deps origDep log =
     (let dep = map_get deps (name (h ! origDep)) in
      if set_has (peerNames (h ! node)) (name (h ! origDep)) then
        (let parentDep = map_get parentDeps (name (h ! origDep)) in
         if parentDep \<noteq> dep then
           (case dep of
              None \<Rightarrow> Some (Inl TypeError)
            | Some d \<Rightarrow>
                Some (Inr (log @ [prettyPrintTreePath h parents node @ '' - broken peer promise: expected ''
                                  @ locator (h ! d) @ '' but found ''
                                  @ (case parentDep of Some p \<Rightarrow> locator (h ! p) | None \<Rightarrow> ''undefined'')])))
         else Some (Inr log))
      else
        (case dep of
           None \<Rightarrow>
             Some (Inr (log @ [prettyPrintTreePath h parents node
                               @ '' - broken require promise: no required dependency ''
                               @ locator (h ! origDep) @ '' found'']))
         | Some d \<Rightarrow>
             if ident (h ! d) \<noteq> ident (h ! origDep) then
               Some (Inr (log @ [prettyPrintTreePath h parents node
                                 @ '' - broken require promise: expected '' @ ident (h ! origDep)
                                 @ '', but found: '' @ ident (h ! d)]))
             else Some (Inr log)))"

text \<open>
  \<open>checkNode\<close> of \<open>selfCheck\<close>. The set \<open>parents\<close> gets the node before the loop over
  the dependencies and loses it after, so it is an argument; \<open>seenNodes\<close> and \<open>log\<close> are
  the state.
\<close>

fun checkNode :: "nat \<Rightarrow> heap \<Rightarrow> addr list \<Rightarrow> addr \<Rightarrow> (string, addr) jsmap
                   \<Rightarrow> addr list \<times> string list \<Rightarrow> (addr list \<times> string list) result" where
  "checkNode 0 h parents node parentDeps st = None"
| "checkNode (Suc n) h parents node parentDeps st =
     (let seenNodes = fst st; log = snd st in
      if set_has seenNodes node then Some (Inr st)
      else if set_has parents node then Some (Inr (set_add node seenNodes, log))
      else
        (let deps = overlayDependencies h node parentDeps in
         case for_each_r (checkPromise h parents node parentDeps deps)
                (map_values (originalDependencies (h ! node))) log of
           None \<Rightarrow> None
         | Some (Inl e) \<Rightarrow> Some (Inl e)
         | Some (Inr log1) \<Rightarrow>
             for_each_r
               (\<lambda>dep s. if \<not> set_has (peerNames (h ! node)) (name (h ! dep))
                        then checkNode n h (set_add node parents) dep deps s
                        else Some (Inr s))
               (map_values (dependencies (h ! node)))
               (set_add node seenNodes, log1)))"

definition selfCheck :: "nat \<Rightarrow> heap \<Rightarrow> addr \<Rightarrow> string result" where
  "selfCheck fuel h tree =
     (case checkNode fuel h [] tree (dependencies (h ! tree)) ([], []) of
        None \<Rightarrow> None
      | Some (Inl e) \<Rightarrow> Some (Inl e)
      | Some (Inr st) \<Rightarrow> Some (Inr (joinWith [CHR 0x0A] (snd st))))"

section \<open>hoistTo\<close>

text \<open>
  A \<open>CloneTree\<close> object: the clone and the map from original nodes to the clone trees of
  their clones.
\<close>

datatype CloneTree = CloneTree (clone: addr) (children: "(addr \<times> CloneTree) list")

text \<open>
  The loop of lines 130 to 155 over \<open>candidate.nodePath\<close>: the result is the clone tree
  after the \<open>set\<close> calls on the \<open>children\<close> maps along the path, the clone of the last
  node of the path (the final \<open>parentClonedNode.clone\<close>) and the store.
  The clone of a node is a new object with copies of the node's fields; \<open>spliceClone\<close>
  adds it to the store and sets it in the dependencies of the parent's clone (lines 133 to
  151; the \<open>set\<close> on \<open>children\<close> is in \<open>clonePath\<close>).
\<close>

definition spliceClone :: "addr \<Rightarrow> addr \<Rightarrow> heap \<Rightarrow> heap" where
  "spliceClone p node h =
     (h @ [h ! node])
       [p := ((h @ [h ! node]) ! p)\<lparr> dependencies :=
                map_set (name (h ! node)) (length h) (dependencies ((h @ [h ! node]) ! p)) \<rparr>]"

fun clonePath :: "addr \<Rightarrow> addr list \<Rightarrow> CloneTree \<Rightarrow> heap \<Rightarrow> CloneTree \<times> addr \<times> heap" where
  "clonePath cnode [] parentClonedNode h = (parentClonedNode, clone parentClonedNode, h)"
| "clonePath cnode (node # rest) parentClonedNode h =
     (let p = clone parentClonedNode;
          found = map_get (children parentClonedNode) node;
          nodeClone = (case found of Some nc \<Rightarrow> nc | None \<Rightarrow> CloneTree (length h) []);
          h1 = (case found of Some nc \<Rightarrow> h | None \<Rightarrow> spliceClone p node h);
          c = clone nodeClone;
          h2 = h1[c := (h1 ! c)\<lparr> relayedDependencies :=
                                   map_set (name (h1 ! cnode)) cnode (relayedDependencies (h1 ! c)) \<rparr>];
          r = clonePath cnode rest nodeClone h2
      in (CloneTree p (map_set node (fst r) (children parentClonedNode)), fst (snd r), snd (snd r)))"

text \<open>Lines 156 and 157: the candidate leaves the dependencies and the reasons of the last clone.\<close>

definition detachCandidate :: "addr \<Rightarrow> addr \<Rightarrow> heap \<Rightarrow> heap" where
  "detachCandidate lastClone cnode h =
     h[lastClone := (h ! lastClone)\<lparr> dependencies := map_delete (name (h ! cnode)) (dependencies (h ! lastClone)),
                                      reasons := map_delete (name (h ! cnode)) (reasons (h ! lastClone)) \<rparr>]"

text \<open>
  Lines 158 to 170: the candidate becomes a dependency of the root when the root has none
  of its name, otherwise its references are added to the dependency that is there.
\<close>

definition attachToRoot :: "addr \<Rightarrow> addr \<Rightarrow> (string, addr) jsmap \<times> heap \<Rightarrow> (string, addr) jsmap \<times> heap" where
  "attachToRoot rootNode cnode st =
     (let ancestorDependencies = fst st; h = snd st in
      case map_get (dependencies (h ! rootNode)) (name (h ! cnode)) of
        None \<Rightarrow>
          if ident (h ! rootNode) \<noteq> ident (h ! cnode) then
            (map_set (name (h ! cnode)) cnode ancestorDependencies,
             h[rootNode := (h ! rootNode)\<lparr> dependencies := map_set (name (h ! cnode)) cnode (dependencies (h ! rootNode)) \<rparr>])
          else (ancestorDependencies, h)
      | Some hoistedNode \<Rightarrow>
          (ancestorDependencies,
           h[hoistedNode := (h ! hoistedNode)\<lparr> references :=
                 foldl (\<lambda>rs reference. set_add reference rs) (references (h ! hoistedNode)) (references (h ! cnode)) \<rparr>]))"

text \<open>The body of the loop of lines 128 to 177 for one candidate.\<close>

definition applyCandidate :: "nat \<Rightarrow> addr \<Rightarrow> addr \<Rightarrow> InternalHoistOptions \<Rightarrow> addr list \<times> addr
      \<Rightarrow> CloneTree \<times> (string, addr) jsmap \<times> heap \<Rightarrow> (CloneTree \<times> (string, addr) jsmap \<times> heap) result" where
  "applyCandidate fuel tree rootNode options candidate st =
     (let clonedTree = fst st; ancestorDependencies = fst (snd st); h = snd (snd st);
          nodePath = fst candidate; cnode = snd candidate;
          r = clonePath cnode nodePath clonedTree h;
          h1 = detachCandidate (fst (snd r)) cnode (snd (snd r));
          a = attachToRoot rootNode cnode (ancestorDependencies, h1)
      in if check options then
           (case selfCheck fuel (snd a) tree of
              None \<Rightarrow> None
            | Some (Inl e) \<Rightarrow> Some (Inl e)
            | Some (Inr checkLog) \<Rightarrow>
                if checkLog \<noteq> [] then Some (Inl (CheckError checkLog))
                else Some (Inr (fst r, fst a, snd a)))
         else Some (Inr (fst r, fst a, snd a)))"

text \<open>
  The \<open>do \<dots> while\<close> loop of lines 125 to 179: one unit of fuel for each pass.
\<close>

fun hoistPasses :: "nat \<Rightarrow> addr \<Rightarrow> addr \<Rightarrow> addr list \<Rightarrow> AncestorMap \<Rightarrow> InternalHoistOptions
      \<Rightarrow> CloneTree \<times> (string, addr) jsmap \<times> heap \<Rightarrow> (CloneTree \<times> (string, addr) jsmap \<times> heap) result" where
  "hoistPasses 0 tree rootNode rootNodePath ancestorMap options st = None"
| "hoistPasses (Suc n) tree rootNode rootNodePath ancestorMap options st =
     (case getHoistCandidates n (snd (snd st)) rootNode rootNodePath (fst (snd st)) ancestorMap options of
        None \<Rightarrow> None
      | Some (Inl e) \<Rightarrow> Some (Inl e)
      | Some (Inr found) \<Rightarrow>
          (case for_each_r (applyCandidate n tree rootNode options)
                  (concat (map hc_candidates (fst found)))
                  (fst st, fst (snd st), snd found) of
             None \<Rightarrow> None
           | Some (Inl e) \<Rightarrow> Some (Inl e)
           | Some (Inr st') \<Rightarrow>
               if fst found \<noteq> [] then hoistPasses n tree rootNode rootNodePath ancestorMap options st'
               else Some (Inr st')))"

text \<open>
  \<open>hoistTo\<close>, and \<open>hoistChildren\<close> for its last loop (lines 181 to 187). The loop runs
  over the live map \<open>rootNode.dependencies\<close>: a call below may set an entry of that map
  when the graph leads back to the root node, so the loop reads the store at each step,
  by position. Both calls of \<open>hoistTo\<close> (lines 65 and 184) give no seventh argument:
  \<open>seenNodes\<close> of the callee is its default, a new empty set, and the node that line 116
  adds to it is not read again. The state is the store and \<open>rootNodePath\<close>.
  Each call and each step of the loop takes one unit of fuel.
\<close>

function (sequential) hoistTo :: "nat \<Rightarrow> addr \<Rightarrow> addr \<Rightarrow> (string, addr) jsmap \<Rightarrow> AncestorMap \<Rightarrow> InternalHoistOptions
      \<Rightarrow> addr list \<Rightarrow> heap \<times> addr list \<Rightarrow> (heap \<times> addr list) result"
and hoistChildren :: "nat \<Rightarrow> addr \<Rightarrow> addr \<Rightarrow> (string, addr) jsmap \<Rightarrow> AncestorMap \<Rightarrow> InternalHoistOptions
      \<Rightarrow> nat \<Rightarrow> heap \<times> addr list \<Rightarrow> (heap \<times> addr list) result" where
  "hoistTo 0 tree rootNode parentAncestorDependencies ancestorMap options seenNodes st = None"
| "hoistTo (Suc n) tree rootNode parentAncestorDependencies ancestorMap options seenNodes st =
     (if set_has seenNodes rootNode then Some (Inr st)
      else
        (let h = fst st; rootNodePath = snd st;
             ancestorDependencies = overlayDependencies h rootNode parentAncestorDependencies
         in case hoistPasses n tree rootNode rootNodePath ancestorMap options
                   (CloneTree rootNode [], ancestorDependencies, h) of
              None \<Rightarrow> None
            | Some (Inl e) \<Rightarrow> Some (Inl e)
            | Some (Inr r) \<Rightarrow>
                hoistChildren n tree rootNode (fst (snd r)) ancestorMap options 0 (snd (snd r), rootNodePath)))"
| "hoistChildren 0 tree rootNode ancestorDependencies ancestorMap options i st = None"
| "hoistChildren (Suc n) tree rootNode ancestorDependencies ancestorMap options i st =
     (let h = fst st; rootNodePath = snd st;
          deps = map_values (dependencies (h ! rootNode))
      in if i < length deps then
           (let dependency = deps ! i;
                path1 = set_add dependency rootNodePath
            in case (if \<not> set_has (peerNames (h ! rootNode)) (name (h ! dependency))
                     then hoistTo n tree dependency ancestorDependencies ancestorMap options [] (h, path1)
                     else Some (Inr (h, path1))) of
                 None \<Rightarrow> None
               | Some (Inl e) \<Rightarrow> Some (Inl e)
               | Some (Inr st') \<Rightarrow>
                   hoistChildren n tree rootNode ancestorDependencies ancestorMap options (Suc i)
                     (fst st', set_delete dependency (snd st')))
         else Some (Inr st))"
  by pat_completeness auto
termination
  by (relation "measure (\<lambda>x. case x of Inl a \<Rightarrow> fst a | Inr b \<Rightarrow> fst b)") auto

section \<open>shrinkTree\<close>

text \<open>
  \<open>addNode\<close> of \<open>shrinkTree\<close>. The map \<open>nodes\<close> holds the root pair from its
  construction and the code never calls \<open>nodes.set\<close>, so it is an argument that does
  not change. The state is the store of result nodes.
\<close>

fun shrink_addNode :: "nat \<Rightarrow> heap \<Rightarrow> (addr, addr) jsmap \<Rightarrow> addr \<Rightarrow> addr \<Rightarrow> HoisterResult list
                        \<Rightarrow> HoisterResult list option" where
  "shrink_addNode 0 h nodes node parentNode rh = None"
| "shrink_addNode (Suc n) h nodes node parentNode rh =
     (let found = map_get nodes node;
          isSeen = (found \<noteq> None);
          resultNode = (case found of Some r \<Rightarrow> r | None \<Rightarrow> length rh);
          rh1 = (case found of
                   Some r \<Rightarrow> rh
                 | None \<Rightarrow> rh @ [\<lparr> r_name = name (h ! node), r_references = references (h ! node),
                                   r_dependencies = [] \<rparr>]);
          rh2 = rh1[parentNode := (rh1 ! parentNode)\<lparr> r_dependencies :=
                                     set_add resultNode (r_dependencies (rh1 ! parentNode)) \<rparr>]
      in if \<not> isSeen then
           for_each (\<lambda>dep s. if \<not> set_has (peerNames (h ! node)) (name (h ! dep))
                              then shrink_addNode n h nodes dep resultNode s else Some s)
             (map_values (dependencies (h ! node))) rh2
         else Some rh2)"

definition shrinkTree :: "nat \<Rightarrow> heap \<Rightarrow> addr \<Rightarrow> (HoisterResult list \<times> addr) option" where
  "shrinkTree fuel h tree =
     (let treeCopy = 0;
          rh = [\<lparr> r_name = name (h ! tree), r_references = references (h ! tree), r_dependencies = [] \<rparr>];
          nodes = [(tree, treeCopy)]
      in map_option (\<lambda>rh'. (rh', treeCopy))
           (for_each (\<lambda>dep. shrink_addNode fuel h nodes dep treeCopy) (map_values (dependencies (h ! tree))) rh))"

section \<open>hoist\<close>

text \<open>
  The memory of a call: the caller's input nodes, the work nodes and the result nodes.
  \<open>hoist\<close> returns the address of the root of the result and the memory after the call.
  The timer and the console output of the debug levels are not modelled.
\<close>

record memory =
  inputs :: "HoisterTree list"
  work :: heap
  results :: "HoisterResult list"

definition hoist :: "nat \<Rightarrow> (string \<Rightarrow> number) \<Rightarrow> string option \<Rightarrow> addr \<Rightarrow> HoistOptions \<Rightarrow> memory
                      \<Rightarrow> (addr \<times> memory) result" where
  "hoist fuel toNumber env tree opts m =
     (case cloneTree fuel (inputs m) tree of
        None \<Rightarrow> None
      | Some (h0, treeCopy) \<Rightarrow>
          (case buildAncestorMap fuel h0 treeCopy of
             None \<Rightarrow> None
           | Some ancestorMap \<Rightarrow>
               (let options = internalOptions toNumber env opts in
                case hoistTo fuel treeCopy treeCopy [] ancestorMap options [] (h0, [treeCopy]) of
                  None \<Rightarrow> None
                | Some (Inl e) \<Rightarrow> Some (Inl e)
                | Some (Inr st) \<Rightarrow>
                    (case (if num_ge (debugLevel options) 1 then selfCheck fuel (fst st) treeCopy
                           else Some (Inr [])) of
                       None \<Rightarrow> None
                     | Some (Inl e) \<Rightarrow> Some (Inl e)
                     | Some (Inr checkLog) \<Rightarrow>
                         if checkLog \<noteq> [] then Some (Inl (CheckError checkLog))
                         else
                           (case shrinkTree fuel (fst st) treeCopy of
                              None \<Rightarrow> None
                            | Some (rh, root) \<Rightarrow>
                                Some (Inr (root, m\<lparr> work := fst st, results := rh \<rparr>)))))))"

section \<open>What the clone of an input is\<close>

text \<open>
  An input is well formed when the root and every dependency are nodes of the input store.
  \<open>workNodeOf ih i deps\<close> is what the work node of the input node \<open>i\<close> has to be,
  written field by field and without the functions of the code: the name and the peer
  names of the input node, its reference as the only reference, the locator
  \<open>name@reference\<close>, the ident \<open>name@\<close> followed by the reference after its first
  \<open>#\<close> (\<open>realReference\<close>), \<open>deps\<close> as both \<open>dependencies\<close> and
  \<open>originalDependencies\<close>, and the other maps empty.
  \<open>clone_inv\<close> relates the work store to the map \<open>seenNodes\<close>: the map pairs distinct
  input nodes with the addresses \<open>0, 1, \<dots>\<close> of the work store, one for each work node;
  the work node of a pair is the work node of its input node; and every entry of its
  dependencies leads, under the name of a dependency of the input node, to the work node
  of that dependency. \<open>clone_complete\<close> says that every dependency of a seen input node is
  seen and has an entry under its name.
\<close>

definition wf_input :: "HoisterTree list \<Rightarrow> addr \<Rightarrow> bool" where
  "wf_input ih tree =
     (tree < length ih \<and> (\<forall>i < length ih. \<forall>d \<in> set (t_dependencies (ih ! i)). d < length ih))"

definition realReference :: "string \<Rightarrow> string" where
  "realReference reference =
     (if CHR ''#'' \<in> set reference
      then drop 1 (dropWhile (\<lambda>c. c \<noteq> CHR ''#'') reference)
      else reference)"

definition workNodeOf :: "HoisterTree list \<Rightarrow> addr \<Rightarrow> (string, addr) jsmap \<Rightarrow> HoisterWorkTree" where
  "workNodeOf ih i deps =
     \<lparr> name = t_name (ih ! i),
       references = [t_reference (ih ! i)],
       ident = t_name (ih ! i) @ ''@'' @ realReference (t_reference (ih ! i)),
       locator = t_name (ih ! i) @ ''@'' @ t_reference (ih ! i),
       dependencies = deps,
       originalDependencies = deps,
       hoistedDependencies = [],
       relayedDependencies = [],
       peerNames = t_peerNames (ih ! i),
       reasons = [] \<rparr>"

definition clone_inv :: "HoisterTree list \<Rightarrow> heap \<times> (addr, addr) jsmap \<Rightarrow> bool" where
  "clone_inv ih st =
     (map snd (snd st) = [0..<length (fst st)]
      \<and> distinct (map fst (snd st))
      \<and> (\<forall>(i, w) \<in> set (snd st).
            i < length ih
            \<and> fst st ! w = workNodeOf ih i (dependencies (fst st ! w))
            \<and> (\<forall>(k, v) \<in> set (dependencies (fst st ! w)).
                  \<exists>d \<in> set (t_dependencies (ih ! i)). (d, v) \<in> set (snd st) \<and> k = t_name (ih ! d))))"

definition clone_complete :: "HoisterTree list \<Rightarrow> heap \<times> (addr, addr) jsmap \<Rightarrow> bool" where
  "clone_complete ih st =
     (\<forall>(i, w) \<in> set (snd st). \<forall>d \<in> set (t_dependencies (ih ! i)).
        map_has (snd st) d \<and> map_has (dependencies (fst st ! w)) (t_name (ih ! d)))"

section \<open>Properties of work stores\<close>










section \<open>The order of the candidate search\<close>











section \<open>Example inputs\<close>

text \<open>
  The root package depends on \<open>A@1\<close>, which depends on \<open>A@2\<close>, which depends on
  \<open>A@1\<close>: a package that needs another version of itself, in a cycle.
  \<open>selfDependent_work\<close> is the clone of this input and \<open>selfDependent_ancestors\<close> its
  ancestor map. \<open>quiet\<close> are the options of a call without options and without the
  environment variable.
\<close>

definition selfDependent :: "HoisterTree list" where
  "selfDependent =
     [\<lparr>t_name = ''.'', t_reference = ''workspace:.'', t_dependencies = [1], t_peerNames = []\<rparr>,
      \<lparr>t_name = ''A'', t_reference = ''1'', t_dependencies = [2], t_peerNames = []\<rparr>,
      \<lparr>t_name = ''A'', t_reference = ''2'', t_dependencies = [1], t_peerNames = []\<rparr>]"

definition selfDependent_work :: heap where
  "selfDependent_work =
     [\<lparr>name = ''.'', references = [''workspace:.''], ident = ''.@workspace:.'', locator = ''.@workspace:.'',
       dependencies = [(''A'', 1)], originalDependencies = [(''A'', 1)],
       hoistedDependencies = [], relayedDependencies = [], peerNames = [], reasons = []\<rparr>,
      \<lparr>name = ''A'', references = [''1''], ident = ''A@1'', locator = ''A@1'',
       dependencies = [(''A'', 2)], originalDependencies = [(''A'', 2)],
       hoistedDependencies = [], relayedDependencies = [], peerNames = [], reasons = []\<rparr>,
      \<lparr>name = ''A'', references = [''2''], ident = ''A@2'', locator = ''A@2'',
       dependencies = [(''A'', 1)], originalDependencies = [(''A'', 1)],
       hoistedDependencies = [], relayedDependencies = [], peerNames = [], reasons = []\<rparr>]"

definition selfDependent_ancestors :: AncestorMap where
  "selfDependent_ancestors = [(''A@1'', [''.@workspace:.'', ''A@2'']), (''A@2'', [''A@1''])]"

definition quiet :: InternalHoistOptions where
  "quiet = \<lparr> check = False, debugLevel = Num (-1) \<rparr>"

text \<open>
  The root package declares the peer name \<open>P\<close> and has the dependency \<open>P@1\<close>.
\<close>

definition rootPeer :: "HoisterTree list" where
  "rootPeer =
     [\<lparr>t_name = ''.'', t_reference = ''workspace:.'', t_dependencies = [1], t_peerNames = [''P'']\<rparr>,
      \<lparr>t_name = ''P'', t_reference = ''1'', t_dependencies = [], t_peerNames = []\<rparr>]"

text \<open>
  The root depends on \<open>X@1\<close>; \<open>X@1\<close> has the peer name \<open>P\<close> and the dependency
  \<open>P@1\<close>; the root has no dependency named \<open>P\<close>. \<open>unmetPeer_work\<close> is the clone.
\<close>

definition unmetPeer :: "HoisterTree list" where
  "unmetPeer =
     [\<lparr>t_name = ''.'', t_reference = ''workspace:.'', t_dependencies = [1], t_peerNames = []\<rparr>,
      \<lparr>t_name = ''X'', t_reference = ''1'', t_dependencies = [2], t_peerNames = [''P'']\<rparr>,
      \<lparr>t_name = ''P'', t_reference = ''1'', t_dependencies = [], t_peerNames = []\<rparr>]"

definition unmetPeer_work :: heap where
  "unmetPeer_work =
     [\<lparr>name = ''.'', references = [''workspace:.''], ident = ''.@workspace:.'', locator = ''.@workspace:.'',
       dependencies = [(''X'', 1)], originalDependencies = [(''X'', 1)],
       hoistedDependencies = [], relayedDependencies = [], peerNames = [], reasons = []\<rparr>,
      \<lparr>name = ''X'', references = [''1''], ident = ''X@1'', locator = ''X@1'',
       dependencies = [(''P'', 2)], originalDependencies = [(''P'', 2)],
       hoistedDependencies = [], relayedDependencies = [], peerNames = [''P''], reasons = []\<rparr>,
      \<lparr>name = ''P'', references = [''1''], ident = ''P@1'', locator = ''P@1'',
       dependencies = [], originalDependencies = [],
       hoistedDependencies = [], relayedDependencies = [], peerNames = [], reasons = []\<rparr>]"












text \<open>
  The children of the root of the result of a call that returned, as pairs of name and
  references.
\<close>

definition resultChildren :: "(addr \<times> memory) result \<Rightarrow> (string \<times> string list) list option" where
  "resultChildren r =
     (case r of
        Some (Inr (root, m)) \<Rightarrow>
          Some (map (\<lambda>d. (r_name (results m ! d), r_references (results m ! d)))
                  (r_dependencies (results m ! root)))
      | _ \<Rightarrow> None)"

section \<open>Maps and loops\<close>

lemma map_get_map_set: "map_get (map_set k v m) k' = (if k' = k then Some v else map_get m k')"
  by (induction m) auto

lemma map_get_None: "map_get m k = None \<longleftrightarrow> k \<notin> fst ` set m"
  by (induction m) (force split: if_splits)+

lemma map_get_Some_mem: "map_get m k = Some v \<Longrightarrow> (k, v) \<in> set m"
  by (induction m) (auto split: if_splits)

lemma map_set_fresh: "map_get m k = None \<Longrightarrow> map_set k v m = m @ [(k, v)]"
  by (induction m) (auto split: if_splits)

lemma set_map_set: "set (map_set k v m) \<subseteq> insert (k, v) (set m)"
  by (induction m) (auto split: if_splits)

lemma keys_map_set: "fst ` set (map_set k v m) = insert k (fst ` set m)"
  by (induction k v m rule: map_set.induct) (simp_all add: insert_commute)

lemma map_has_keys: "map_has m k \<longleftrightarrow> k \<in> fst ` set m"
  by (simp add: map_has_def map_get_None)

lemma for_each_invariant:
  assumes "I [] s0"
    and "\<And>pre x s. I pre s \<Longrightarrow> x \<in> set xs \<Longrightarrow> \<exists>s'. f x s = Some s' \<and> I (pre @ [x]) s'"
  shows "\<exists>s'. for_each f xs s0 = Some s' \<and> I xs s'"
proof -
  have "I pre s \<Longrightarrow> set rest \<subseteq> set xs \<Longrightarrow> \<exists>s'. for_each f rest s = Some s' \<and> I (pre @ rest) s'"
    for pre rest s
  proof (induction rest arbitrary: pre s)
    case Nil then show ?case by simp
  next
    case (Cons x rest)
    from assms(2)[OF Cons.prems(1), of x] Cons.prems(2)
    obtain s1 where s1: "f x s = Some s1" "I (pre @ [x]) s1" by auto
    from Cons.IH[OF s1(2)] Cons.prems(2)
    obtain s' where "for_each f rest s1 = Some s'" "I ((pre @ [x]) @ rest) s'" by auto
    with s1 show ?case by simp
  qed
  from this[of "[]" s0 xs] assms(1) show ?thesis by simp
qed



section \<open>Properties of idents and locators\<close>

lemma indexOf_absent: "c \<notin> set s \<Longrightarrow> indexOf s c = -1"
  by (induction s) auto

lemma indexOf_first: "c \<notin> set pre \<Longrightarrow> indexOf (pre @ c # post) c = int (length pre)"
  by (induction pre) (auto simp: Let_def)

text \<open>
  C7. A work node built from a name and a reference has the locator
  \<open>name@reference\<close>; its ident is \<open>name@reference\<close> when the reference has no
  \<open>#\<close>, and \<open>name@rest\<close> when the reference is \<open>virt#rest\<close> with no \<open>#\<close> in
  \<open>virt\<close> (the part after the first \<open>#\<close>): the ident drops the virtual decoration,
  the locator keeps it.
\<close>

theorem workNode_locator_ident:
  "locator (newWorkNode nm reference pn) = nm @ ''@'' @ reference
   \<and> (CHR ''#'' \<notin> set reference \<longrightarrow> ident (newWorkNode nm reference pn) = nm @ ''@'' @ reference)
   \<and> (\<forall>virt rest. reference = virt @ ''#'' @ rest \<and> CHR ''#'' \<notin> set virt
        \<longrightarrow> ident (newWorkNode nm reference pn) = nm @ ''@'' @ rest)"
  by (auto simp: newWorkNode_def makeIdent_def makeLocator_def substring_def
        indexOf_absent indexOf_first Let_def nat_add_distrib)

theorem workNode_locator_ident_witness:
  "locator (newWorkNode ''lodash'' ''virtual:abc#npm:1.0.0'' []) = ''lodash@virtual:abc#npm:1.0.0''
   \<and> ident (newWorkNode ''lodash'' ''virtual:abc#npm:1.0.0'' []) = ''lodash@npm:1.0.0''
   \<and> ident (newWorkNode ''lodash'' ''npm:1.0.0'' []) = ''lodash@npm:1.0.0''"
proof -
  have a: "''virtual:abc#npm:1.0.0'' = ''virtual:abc'' @ ''#'' @ ''npm:1.0.0'' \<and> CHR ''#'' \<notin> set ''virtual:abc''"
    by simp
  have b: "CHR ''#'' \<notin> set ''npm:1.0.0''" by simp
  from workNode_locator_ident [of "''lodash''" "''virtual:abc#npm:1.0.0''" "[]"] a
  have 1: "locator (newWorkNode ''lodash'' ''virtual:abc#npm:1.0.0'' []) = ''lodash'' @ ''@'' @ ''virtual:abc#npm:1.0.0''"
    and 2: "ident (newWorkNode ''lodash'' ''virtual:abc#npm:1.0.0'' []) = ''lodash'' @ ''@'' @ ''npm:1.0.0''"
    by blast+
  from workNode_locator_ident [of "''lodash''" "''npm:1.0.0''" "[]"] b
  have 3: "ident (newWorkNode ''lodash'' ''npm:1.0.0'' []) = ''lodash'' @ ''@'' @ ''npm:1.0.0''"
    by blast
  from 1 2 3 show ?thesis by simp
qed

section \<open>The effective debug level\<close>

text \<open>
  C6. The claim: a debug level given by the caller, the value 0 included, is the effective
  debug level, and the environment is consulted only when the caller gives none.
  The code tests the caller's value with \<open>||\<close>, so a caller's 0 is discarded: with the
  variable unset the level is -1, and with the variable set the variable's value is used.
\<close>

theorem debugLevel_zero_discarded:
  "effectiveDebugLevel toNumber None \<lparr> opt_check = None, opt_debugLevel = Some (Num 0) \<rparr> = Num (-1)
   \<and> effectiveDebugLevel (\<lambda>s. Num 2) (Some ''2'') \<lparr> opt_check = None, opt_debugLevel = Some (Num 0) \<rparr> = Num 2"
  by (simp add: effectiveDebugLevel_def envDebugLevel_def)

section \<open>The clone of an input\<close>

lemma indexOf_nonneg: "0 \<le> indexOf s c \<longleftrightarrow> c \<in> set s"
  by (induction s) (auto simp: Let_def)

lemma substring_after_first:
  "c \<in> set s \<Longrightarrow> drop (nat (indexOf s c + 1)) s = drop 1 (dropWhile (\<lambda>x. x \<noteq> c) s)"
proof (induction s)
  case Nil
  then show ?case by simp
next
  case (Cons x xs)
  show ?case
  proof (cases "x = c")
    case True
    then show ?thesis by simp
  next
    case False
    with Cons.prems have mem: "c \<in> set xs" by simp
    then have nn: "0 \<le> indexOf xs c" by (simp add: indexOf_nonneg)
    then have "nat (indexOf xs c + 1 + 1) = Suc (nat (indexOf xs c + 1))" by simp
    with False nn Cons.IH[OF mem] show ?thesis by (simp add: Let_def)
  qed
qed

lemma makeIdent_realReference: "makeIdent nm reference = nm @ ''@'' @ realReference reference"
proof (cases "CHR ''#'' \<in> set reference")
  case True
  then have "0 \<le> indexOf reference (CHR ''#'')" by (simp add: indexOf_nonneg)
  with True substring_after_first[OF True] show ?thesis
    by (simp add: makeIdent_def makeLocator_def realReference_def substring_def Let_def)
next
  case False
  then have "\<not> 0 \<le> indexOf reference (CHR ''#'')" by (simp add: indexOf_nonneg)
  with False show ?thesis
    by (simp add: makeIdent_def makeLocator_def realReference_def Let_def)
qed

lemma newWorkNode_workNodeOf:
  "newWorkNode (t_name (ih ! i)) (t_reference (ih ! i)) (t_peerNames (ih ! i)) = workNodeOf ih i []"
  by (simp add: newWorkNode_def workNodeOf_def makeIdent_realReference makeLocator_def)

definition keys_grow :: "heap \<Rightarrow> heap \<Rightarrow> bool" where
  "keys_grow h h' = (length h \<le> length h' \<and>
     (\<forall>w < length h. fst ` set (dependencies (h ! w)) \<subseteq> fst ` set (dependencies (h' ! w))))"

definition complete_at :: "HoisterTree list \<Rightarrow> heap \<times> (addr, addr) jsmap \<Rightarrow> addr \<Rightarrow> addr \<Rightarrow> bool" where
  "complete_at ih st i w =
     (\<forall>d \<in> set (t_dependencies (ih ! i)).
        map_has (snd st) d \<and> map_has (dependencies (fst st ! w)) (t_name (ih ! d)))"

lemma keys_grow_refl: "keys_grow h h"
  by (simp add: keys_grow_def)

lemma keys_grow_trans: "keys_grow a b \<Longrightarrow> keys_grow b c \<Longrightarrow> keys_grow a c"
  unfolding keys_grow_def by (meson dual_order.trans order_less_le_trans)

lemma clone_inv_addr: "clone_inv ih (h, seen) \<Longrightarrow> (i, w) \<in> set seen \<Longrightarrow> w < length h \<and> i < length ih"
proof -
  assume a: "clone_inv ih (h, seen)" "(i, w) \<in> set seen"
  then have "w \<in> set (map snd seen)" by force
  with a show ?thesis by (auto simp: clone_inv_def)
qed

lemma distinct_snd_unique:
  "distinct (map snd xs) \<Longrightarrow> (i, w) \<in> set xs \<Longrightarrow> (j, w) \<in> set xs \<Longrightarrow> i = j"
  by (induction xs) (force+)

lemma clone_inv_value_unique:
  "clone_inv ih (h, seen) \<Longrightarrow> (i, w) \<in> set seen \<Longrightarrow> (j, w) \<in> set seen \<Longrightarrow> i = j"
proof -
  assume a: "clone_inv ih (h, seen)" "(i, w) \<in> set seen" "(j, w) \<in> set seen"
  then have "map snd seen = [0..<length h]" by (simp add: clone_inv_def)
  then have "distinct (map snd seen)" by simp
  with a(2,3) show ?thesis by (rule distinct_snd_unique[rotated])
qed

lemma clone_inv_node:
  "clone_inv ih (h, seen) \<Longrightarrow> (i, w) \<in> set seen \<Longrightarrow> h ! w = workNodeOf ih i (dependencies (h ! w))"
  by (auto simp: clone_inv_def)

lemma clone_inv_name:
  "clone_inv ih (h, seen) \<Longrightarrow> (i, w) \<in> set seen \<Longrightarrow> name (h ! w) = t_name (ih ! i)"
proof -
  assume a: "clone_inv ih (h, seen)" "(i, w) \<in> set seen"
  have "name (workNodeOf ih i D) = t_name (ih ! i)" for D
    by (simp add: workNodeOf_def newWorkNode_def)
  with clone_inv_node[OF a] show ?thesis by metis
qed


lemma workNodeOf_fields:
  "dependencies (workNodeOf ih i D) = D" "originalDependencies (workNodeOf ih i D) = D"
  "name (workNodeOf ih i D) = t_name (ih ! i)"
  by (simp_all add: workNodeOf_def newWorkNode_def)

lemma link_inv:
  assumes inv: "clone_inv ih (h, seen)"
    and p: "(ip, p) \<in> set seen" and w: "(node, w) \<in> set seen"
    and dep: "node \<in> set (t_dependencies (ih ! ip))"
  shows "clone_inv ih (linkDependency p w h, seen)"
proof -
  let ?D = "dependencies (h ! p)"
  let ?D' = "map_set (name (h ! w)) w ?D"
  let ?h' = "linkDependency p w h"
  from clone_inv_addr[OF inv p] have pl: "p < length h" by simp
  from clone_inv_node[OF inv p] have hp: "h ! p = workNodeOf ih ip ?D" .
  then have orig: "originalDependencies (h ! p) = ?D"
    by (metis workNodeOf_fields(2))
  have h': "?h' = h[p := workNodeOf ih ip ?D']"
  proof -
    have "(h ! p)\<lparr> dependencies := ?D', originalDependencies := map_set (name (h ! w)) w (originalDependencies (h ! p)) \<rparr>
          = workNodeOf ih ip ?D'"
      unfolding orig by (subst hp) (simp add: workNodeOf_def)
    then show ?thesis by (simp add: linkDependency_def Let_def)
  qed
  have nm: "name (h ! w) = t_name (ih ! node)" by (rule clone_inv_name[OF inv w])
  have len: "length ?h' = length h" by (simp add: h')
  have "i < length ih \<and> ?h' ! w' = workNodeOf ih i (dependencies (?h' ! w'))
        \<and> (\<forall>(k, v) \<in> set (dependencies (?h' ! w')).
              \<exists>d \<in> set (t_dependencies (ih ! i)). (d, v) \<in> set seen \<and> k = t_name (ih ! d))"
    if iw: "(i, w') \<in> set seen" for i w'
  proof (cases "w' = p")
    case True
    with iw p have i: "i = ip" using clone_inv_value_unique[OF inv] by blast
    have at: "?h' ! w' = workNodeOf ih ip ?D'" using True pl by (simp add: h')
    have old: "\<forall>(k, v) \<in> set ?D. \<exists>d \<in> set (t_dependencies (ih ! ip)). (d, v) \<in> set seen \<and> k = t_name (ih ! d)"
      using inv p by (auto simp: clone_inv_def)
    have "\<exists>d \<in> set (t_dependencies (ih ! ip)). (d, v) \<in> set seen \<and> k = t_name (ih ! d)"
      if "(k, v) \<in> set ?D'" for k v
    proof -
      from that set_map_set[of "name (h ! w)" w ?D] have "(k, v) = (name (h ! w), w) \<or> (k, v) \<in> set ?D"
        by blast
      then show ?thesis
      proof
        assume "(k, v) = (name (h ! w), w)"
        with nm dep w show ?thesis by auto
      next
        assume "(k, v) \<in> set ?D"
        with old show ?thesis by auto
      qed
    qed
    then show ?thesis using at i clone_inv_addr[OF inv iw] by (auto simp: workNodeOf_fields)
  next
    case False
    then have "?h' ! w' = h ! w'" by (simp add: h')
    then show ?thesis using inv iw by (auto simp: clone_inv_def)
  qed
  moreover have "map snd seen = [0..<length ?h']" "distinct (map fst seen)"
    using inv len by (simp_all add: clone_inv_def)
  ultimately show ?thesis unfolding clone_inv_def fst_conv snd_conv by blast
qed

lemma link_keys_grow: "keys_grow h (linkDependency p w h)"
proof -
  have "fst ` set (dependencies (h ! a)) \<subseteq> fst ` set (dependencies (linkDependency p w h ! a))"
    if "a < length h" for a
    using that by (cases "a = p") (auto simp: linkDependency_def Let_def keys_map_set)
  then show ?thesis by (simp add: keys_grow_def linkDependency_def Let_def)
qed

lemma link_has:
  "p < length h \<Longrightarrow> map_has (dependencies (linkDependency p w h ! p)) (name (h ! w))"
  by (simp add: linkDependency_def Let_def map_has_keys keys_map_set)

lemma alloc_inv:
  assumes inv: "clone_inv ih (h, seen)" and node: "node < length ih" and fresh: "node \<notin> fst ` set seen"
  shows "clone_inv ih (h @ [newWorkNode (t_name (ih ! node)) (t_reference (ih ! node)) (t_peerNames (ih ! node))],
                       seen @ [(node, length h)])"
proof -
  let ?n = "newWorkNode (t_name (ih ! node)) (t_reference (ih ! node)) (t_peerNames (ih ! node))"
  have new: "?n = workNodeOf ih node (dependencies ?n)" "dependencies ?n = []"
    by (simp_all add: newWorkNode_workNodeOf) (simp_all add: workNodeOf_def)
  have old: "(h @ [?n]) ! w = h ! w" if "(i, w) \<in> set seen" for i w
    using clone_inv_addr[OF inv that] by (simp add: nth_append)
  have 1: "map snd (seen @ [(node, length h)]) = [0..<length (h @ [?n])]"
    using inv by (simp add: clone_inv_def)
  have 2: "distinct (map fst (seen @ [(node, length h)]))"
    using inv fresh by (simp add: clone_inv_def)
  have 3: "i < length ih \<and> (h @ [?n]) ! w = workNodeOf ih i (dependencies ((h @ [?n]) ! w))
        \<and> (\<forall>(k, v) \<in> set (dependencies ((h @ [?n]) ! w)).
              \<exists>d \<in> set (t_dependencies (ih ! i)). (d, v) \<in> set (seen @ [(node, length h)]) \<and> k = t_name (ih ! d))"
    if iw: "(i, w) \<in> set (seen @ [(node, length h)])" for i w
  proof (cases "(i, w) \<in> set seen")
    case True
    from old[OF True] inv True show ?thesis by (fastforce simp: clone_inv_def)
  next
    case False
    with iw have "i = node" "w = length h" by auto
    then show ?thesis using new node by simp
  qed
  show ?thesis unfolding clone_inv_def fst_conv snd_conv using 1 2 3 by blast
qed


definition unseen :: "HoisterTree list \<Rightarrow> (addr, addr) jsmap \<Rightarrow> nat" where
  "unseen ih seen = card ({..<length ih} - fst ` set seen)"

definition addNode_post :: "HoisterTree list \<Rightarrow> heap \<Rightarrow> (addr, addr) jsmap \<Rightarrow> addr \<Rightarrow> addr
                            \<Rightarrow> heap \<times> (addr, addr) jsmap \<Rightarrow> bool" where
  "addNode_post ih h seen node p st' =
     (clone_inv ih st' \<and> (\<exists>ext. snd st' = seen @ ext) \<and> keys_grow h (fst st')
      \<and> map_has (snd st') node \<and> map_has (dependencies (fst st' ! p)) (t_name (ih ! node))
      \<and> (\<forall>(i, w) \<in> set (snd st') - set seen. complete_at ih st' i w))"

lemma keys_grow_has:
  assumes "keys_grow h h'" "w < length h" "map_has (dependencies (h ! w)) k"
  shows "map_has (dependencies (h' ! w)) k"
proof -
  from assms(1,2) have "fst ` set (dependencies (h ! w)) \<subseteq> fst ` set (dependencies (h' ! w))"
    by (simp add: keys_grow_def)
  with assms(3) show ?thesis unfolding map_has_keys by blast
qed

lemma complete_at_mono:
  assumes "complete_at ih (h, s) i w" "keys_grow h h'" "w < length h"
  shows "complete_at ih (h', s @ ext) i w"
  unfolding complete_at_def fst_conv snd_conv
proof
  fix d assume d: "d \<in> set (t_dependencies (ih ! i))"
  with assms(1) have a: "map_has s d" and b: "map_has (dependencies (h ! w)) (t_name (ih ! d))"
    by (auto simp: complete_at_def)
  from a have "map_has (s @ ext) d" unfolding map_has_keys by auto
  with keys_grow_has[OF assms(2,3) b]
  show "map_has (s @ ext) d \<and> map_has (dependencies (h' ! w)) (t_name (ih ! d))" by simp
qed

lemma unseen_mono: "unseen ih (s @ ext) \<le> unseen ih s"
  unfolding unseen_def by (rule card_mono) auto

lemma unseen_fresh:
  assumes "node < length ih" "node \<notin> fst ` set s"
  shows "unseen ih (s @ [(node, w)]) < unseen ih s"
proof -
  have "{..<length ih} - fst ` set (s @ [(node, w)]) = ({..<length ih} - fst ` set s) - {node}"
    by auto
  moreover have "node \<in> {..<length ih} - fst ` set s" using assms by simp
  moreover have "finite ({..<length ih} - fst ` set s)" by simp
  ultimately show ?thesis unfolding unseen_def
    by (metis card_Diff1_less)
qed

definition loop_post :: "HoisterTree list \<Rightarrow> heap \<Rightarrow> (addr, addr) jsmap \<Rightarrow> addr \<Rightarrow> addr
                         \<Rightarrow> heap \<times> (addr, addr) jsmap \<Rightarrow> bool" where
  "loop_post ih h seen node w0 st' =
     (clone_inv ih st' \<and> (\<exists>ext. snd st' = seen @ ext) \<and> keys_grow h (fst st')
      \<and> complete_at ih st' node w0
      \<and> (\<forall>(i, w) \<in> set (snd st') - set seen. complete_at ih st' i w))"

lemma children_loop:
  assumes IH: "\<And>h seen ip p node. clone_inv ih (h, seen) \<Longrightarrow> (ip, p) \<in> set seen
          \<Longrightarrow> node \<in> set (t_dependencies (ih ! ip)) \<Longrightarrow> unseen ih seen < n
          \<Longrightarrow> \<exists>st'. addNode n ih node p (h, seen) = Some st' \<and> addNode_post ih h seen node p st'"
    and inv2: "clone_inv ih (h2, seen1)" and mem1: "(node, w0) \<in> set seen1"
    and less: "unseen ih seen1 < n"
  shows "\<exists>st'. for_each (\<lambda>dep. addNode n ih dep w0) (t_dependencies (ih ! node)) (h2, seen1) = Some st'
               \<and> loop_post ih h2 seen1 node w0 st'"
proof -
  let ?deps = "t_dependencies (ih ! node)"
    define I where "I = (\<lambda>pre st. clone_inv ih st \<and> (\<exists>ext. snd st = seen1 @ ext) \<and> keys_grow h2 (fst st)
        \<and> (\<forall>d \<in> set pre. map_has (snd st) d \<and> map_has (dependencies (fst st ! w0)) (t_name (ih ! d)))
        \<and> (\<forall>(i, w) \<in> set (snd st) - set seen1. complete_at ih st i w))"
    have I0: "I [] (h2, seen1)"
      unfolding I_def using inv2 by (simp add: keys_grow_refl)
    have step: "\<exists>s'. addNode n ih x w0 s = Some s' \<and> I (pre @ [x]) s'"
      if Is: "I pre s" and x: "x \<in> set ?deps" for pre x s
    proof -
      obtain hs ss where s: "s = (hs, ss)" by (cases s)
      from Is obtain ext where invs: "clone_inv ih (hs, ss)" and ext: "ss = seen1 @ ext"
        and gs: "keys_grow h2 hs"
        and pres: "\<forall>d \<in> set pre. map_has ss d \<and> map_has (dependencies (hs ! w0)) (t_name (ih ! d))"
        and comp: "\<forall>(i, w) \<in> set ss - set seen1. complete_at ih (hs, ss) i w"
        unfolding I_def s by auto
      have mem: "(node, w0) \<in> set ss" using ext mem1 by simp
      have u: "unseen ih ss < n" using unseen_mono[of ih seen1 ext] less ext by simp
      from IH[OF invs mem x u] obtain st' where r: "addNode n ih x w0 (hs, ss) = Some st'"
        and post: "addNode_post ih hs ss x w0 st'" by blast
      obtain h' s' where st': "st' = (h', s')" by (cases st')
      from post obtain ext' where inv': "clone_inv ih (h', s')" and ext': "s' = ss @ ext'"
        and g': "keys_grow hs h'" and hx: "map_has s' x"
        and hx2: "map_has (dependencies (h' ! w0)) (t_name (ih ! x))"
        and comp': "\<forall>(i, w) \<in> set s' - set ss. complete_at ih (h', s') i w"
        unfolding addNode_post_def st' by auto
      from clone_inv_addr[OF invs mem] have w0l: "w0 < length hs" by simp
      have "I (pre @ [x]) (h', s')"
        unfolding I_def fst_conv snd_conv
      proof (intro conjI)
        show "clone_inv ih (h', s')" by (rule inv')
        show "\<exists>e. s' = seen1 @ e" using ext ext' by simp
        show "keys_grow h2 h'" by (rule keys_grow_trans[OF gs g'])
        show "\<forall>d \<in> set (pre @ [x]). map_has s' d \<and> map_has (dependencies (h' ! w0)) (t_name (ih ! d))"
        proof
          fix d assume "d \<in> set (pre @ [x])"
          then consider "d \<in> set pre" | "d = x" by auto
          then show "map_has s' d \<and> map_has (dependencies (h' ! w0)) (t_name (ih ! d))"
          proof cases
            case 1
            with pres have a: "map_has ss d" and b: "map_has (dependencies (hs ! w0)) (t_name (ih ! d))" by auto
            from a have "map_has s' d" unfolding ext' map_has_keys by auto
            moreover from keys_grow_has[OF g' w0l b] have "map_has (dependencies (h' ! w0)) (t_name (ih ! d))" .
            ultimately show ?thesis by simp
          next
            case 2
            with hx hx2 show ?thesis by simp
          qed
        qed
        show "\<forall>(i, w) \<in> set s' - set seen1. complete_at ih (h', s') i w"
        proof (clarify)
          fix i w assume iw: "(i, w) \<in> set s'" "(i, w) \<notin> set seen1"
          show "complete_at ih (h', s') i w"
          proof (cases "(i, w) \<in> set ss")
            case True
            with comp iw(2) have c: "complete_at ih (hs, ss) i w" by auto
            from clone_inv_addr[OF invs True] have "w < length hs" by simp
            from complete_at_mono[OF c g' this, of ext'] show ?thesis by (simp add: ext')
          next
            case False
            with comp' iw(1) show ?thesis by auto
          qed
        qed
      qed
      with r show ?thesis by (auto simp: s st')
    qed
    from for_each_invariant[of I "(h2, seen1)" ?deps "\<lambda>dep. addNode n ih dep w0", OF I0 step]
    obtain st' where fin: "for_each (\<lambda>dep. addNode n ih dep w0) ?deps (h2, seen1) = Some st'"
      and If: "I ?deps st'" by blast
  obtain h' s' where st': "st' = (h', s')" by (cases st')
  from If have "loop_post ih h2 seen1 node w0 st'"
    unfolding I_def loop_post_def complete_at_def st' by auto
  with fin show ?thesis by blast
qed

lemma addNode_correct:
  assumes wf: "\<forall>i < length ih. \<forall>d \<in> set (t_dependencies (ih ! i)). d < length ih"
  shows "clone_inv ih (h, seen) \<Longrightarrow> (ip, p) \<in> set seen \<Longrightarrow> node \<in> set (t_dependencies (ih ! ip))
         \<Longrightarrow> unseen ih seen < n
         \<Longrightarrow> \<exists>st'. addNode n ih node p (h, seen) = Some st' \<and> addNode_post ih h seen node p st'"
proof (induction n arbitrary: h seen ip p node)
  case 0
  then show ?case by simp
next
  case (Suc n)
  note inv = Suc.prems(1) and p = Suc.prems(2) and dep = Suc.prems(3) and fuel = Suc.prems(4)
  from clone_inv_addr[OF inv p] have pl: "p < length h" and ipl: "ip < length ih" by simp_all
  from wf ipl dep have nl: "node < length ih" by blast
  show ?case
  proof (cases "map_get seen node")
    case (Some w)
    then have w: "(node, w) \<in> set seen" by (rule map_get_Some_mem)
    let ?st = "(linkDependency p w h, seen)"
    have run: "addNode (Suc n) ih node p (h, seen) = Some ?st"
      using Some by (simp add: Let_def)
    have "addNode_post ih h seen node p ?st"
      unfolding addNode_post_def fst_conv snd_conv
    proof (intro conjI)
      show "clone_inv ih ?st" by (rule link_inv[OF inv p w dep])
      show "\<exists>ext. seen = seen @ ext" by simp
      show "keys_grow h (linkDependency p w h)" by (rule link_keys_grow)
      show "map_has seen node" using Some by (simp add: map_has_def)
      show "map_has (dependencies (linkDependency p w h ! p)) (t_name (ih ! node))"
        using link_has[OF pl, of w] clone_inv_name[OF inv w] by simp
      show "\<forall>(i, w') \<in> set seen - set seen. complete_at ih ?st i w'" by simp
    qed
    with run show ?thesis by blast
  next
    case None
    then have fresh: "node \<notin> fst ` set seen" by (simp add: map_get_None)
    let ?w0 = "length h"
    let ?h1 = "h @ [newWorkNode (t_name (ih ! node)) (t_reference (ih ! node)) (t_peerNames (ih ! node))]"
    let ?seen1 = "seen @ [(node, ?w0)]"
    let ?h2 = "linkDependency p ?w0 ?h1"
    let ?deps = "t_dependencies (ih ! node)"
    have run: "addNode (Suc n) ih node p (h, seen)
               = for_each (\<lambda>dep. addNode n ih dep ?w0) ?deps (?h2, ?seen1)"
      using None by (simp add: Let_def map_set_fresh)
    have inv1: "clone_inv ih (?h1, ?seen1)" by (rule alloc_inv[OF inv nl fresh])
    have inv2: "clone_inv ih (?h2, ?seen1)"
      by (rule link_inv[OF inv1, of ip p node ?w0]) (use p dep in auto)
    have nm0: "name (?h1 ! ?w0) = t_name (ih ! node)" by (simp add: newWorkNode_def)
    have g01: "keys_grow h ?h1" by (simp add: keys_grow_def nth_append)
    have g12: "keys_grow ?h1 ?h2" by (rule link_keys_grow)
    have g02: "keys_grow h ?h2" by (rule keys_grow_trans[OF g01 g12])
    have has2: "map_has (dependencies (?h2 ! p)) (t_name (ih ! node))"
      using link_has[of p ?h1 ?w0] pl nm0 by simp
    have less: "unseen ih ?seen1 < n"
      using unseen_fresh[OF nl fresh, of ?w0] fuel by simp
    have mem1: "(node, ?w0) \<in> set ?seen1" by simp
    have "\<exists>st'. for_each (\<lambda>dep. addNode n ih dep ?w0) ?deps (?h2, ?seen1) = Some st'
                \<and> loop_post ih ?h2 ?seen1 node ?w0 st'"
    proof (rule children_loop[OF _ inv2 mem1 less])
      fix h seen ip p node
      assume "clone_inv ih (h, seen)" "(ip, p) \<in> set seen"
        "node \<in> set (t_dependencies (ih ! ip))" "unseen ih seen < n"
      then show "\<exists>st'. addNode n ih node p (h, seen) = Some st' \<and> addNode_post ih h seen node p st'"
        by (rule Suc.IH)
    qed
    then obtain st' where fin: "for_each (\<lambda>dep. addNode n ih dep ?w0) ?deps (?h2, ?seen1) = Some st'"
      and lp: "loop_post ih ?h2 ?seen1 node ?w0 st'" by auto
    obtain h' s' where st': "st' = (h', s')" by (cases st')
    from lp obtain ext where inv': "clone_inv ih (h', s')" and ext: "s' = ?seen1 @ ext"
      and g': "keys_grow ?h2 h'"
      and all: "complete_at ih (h', s') node ?w0"
      and comp: "\<forall>(i, w) \<in> set s' - set ?seen1. complete_at ih (h', s') i w"
      unfolding loop_post_def st' by auto
    have "addNode_post ih h seen node p (h', s')"
      unfolding addNode_post_def fst_conv snd_conv
    proof (intro conjI)
      show "clone_inv ih (h', s')" by (rule inv')
      show "\<exists>e. s' = seen @ e" using ext by simp
      show "keys_grow h h'" by (rule keys_grow_trans[OF g02 g'])
      show "map_has s' node" unfolding ext map_has_keys by simp
      show "map_has (dependencies (h' ! p)) (t_name (ih ! node))"
      proof (rule keys_grow_has[OF g' _ has2])
        show "p < length ?h2" using pl by (simp add: linkDependency_def Let_def)
      qed
      show "\<forall>(i, w) \<in> set s' - set seen. complete_at ih (h', s') i w"
      proof (clarify)
        fix i w assume iw: "(i, w) \<in> set s'" "(i, w) \<notin> set seen"
        show "complete_at ih (h', s') i w"
        proof (cases "(i, w) = (node, ?w0)")
          case True
          with all show ?thesis by simp
        next
          case False
          with iw comp show ?thesis by auto
        qed
      qed
    qed
    with run fin st' show ?thesis by auto
  qed
qed


lemma cloneTree_nodes_correct:
  assumes wf: "wf_input ih tree" and fuel: "length ih \<le> fuel"
  shows "\<exists>h seen. cloneTree_nodes fuel ih tree = Some (h, seen) \<and> map_get seen tree = Some 0
           \<and> clone_inv ih (h, seen) \<and> clone_complete ih (h, seen)"
proof -
  let ?root = "newWorkNode (t_name (ih ! tree)) (t_reference (ih ! tree)) (t_peerNames (ih ! tree))"
  from wf have tl: "tree < length ih"
    and deps: "\<forall>i < length ih. \<forall>d \<in> set (t_dependencies (ih ! i)). d < length ih"
    by (simp_all add: wf_input_def)
  have inv0: "clone_inv ih ([], [])" by (simp add: clone_inv_def)
  from alloc_inv[OF inv0 tl] have inv1: "clone_inv ih ([?root], [(tree, 0)])" by simp
  have "unseen ih [] = length ih" by (simp add: unseen_def)
  with unseen_fresh[of tree ih "[]" 0] tl fuel have less: "unseen ih [(tree, 0)] < fuel" by simp
  have "\<exists>st'. for_each (\<lambda>dep. addNode fuel ih dep 0) (t_dependencies (ih ! tree)) ([?root], [(tree, 0)]) = Some st'
              \<and> loop_post ih [?root] [(tree, 0)] tree 0 st'"
  proof (rule children_loop[OF _ inv1 _ less])
    fix h seen ip p node
    assume "clone_inv ih (h, seen)" "(ip, p) \<in> set seen"
      "node \<in> set (t_dependencies (ih ! ip))" "unseen ih seen < fuel"
    then show "\<exists>st'. addNode fuel ih node p (h, seen) = Some st' \<and> addNode_post ih h seen node p st'"
      by (rule addNode_correct[OF deps])
  qed simp
  then obtain h seen where run: "for_each (\<lambda>dep. addNode fuel ih dep 0) (t_dependencies (ih ! tree)) ([?root], [(tree, 0)]) = Some (h, seen)"
    and lp: "loop_post ih [?root] [(tree, 0)] tree 0 (h, seen)" by auto
  from lp obtain ext where inv: "clone_inv ih (h, seen)" and ext: "seen = [(tree, 0)] @ ext"
    and c0: "complete_at ih (h, seen) tree 0"
    and c: "\<forall>(i, w) \<in> set seen - set [(tree, 0)]. complete_at ih (h, seen) i w"
    unfolding loop_post_def by auto
  have "complete_at ih (h, seen) i w" if "(i, w) \<in> set seen" for i w
    using that c0 c by (cases "(i, w) = (tree, 0)") auto
  then have "clone_complete ih (h, seen)"
    unfolding clone_complete_def complete_at_def by auto
  moreover have "cloneTree_nodes fuel ih tree = Some (h, seen)"
    using run by (simp add: cloneTree_nodes_def)
  moreover have "map_get seen tree = Some 0" by (simp add: ext)
  ultimately show ?thesis using inv by blast
qed

lemma addNode_seen:
  assumes seen: "map_get seenNodes node = Some w" and p: "parentNode < length h"
  shows "\<exists>h'. addNode (Suc n) ih node parentNode (h, seenNodes) = Some (h', seenNodes)
           \<and> length h' = length h
           \<and> map_get (dependencies (h' ! parentNode)) (name (h ! w)) = Some w
           \<and> map_get (originalDependencies (h' ! parentNode)) (name (h ! w)) = Some w
           \<and> (\<forall>a. a \<noteq> parentNode \<longrightarrow> h' ! a = h ! a)"
proof -
  have run: "addNode (Suc n) ih node parentNode (h, seenNodes) = Some (linkDependency parentNode w h, seenNodes)"
    using seen by (simp add: Let_def)
  have "length (linkDependency parentNode w h) = length h"
    and "map_get (dependencies (linkDependency parentNode w h ! parentNode)) (name (h ! w)) = Some w"
    and "map_get (originalDependencies (linkDependency parentNode w h ! parentNode)) (name (h ! w)) = Some w"
    and "\<forall>a. a \<noteq> parentNode \<longrightarrow> linkDependency parentNode w h ! a = h ! a"
    using p by (simp_all add: linkDependency_def Let_def map_get_map_set)
  with run show ?thesis by blast
qed

text \<open>
  C8. On a well-formed input, cyclic or not, \<open>cloneTree\<close> returns with fuel of the size of
  the input store. It gives each input node it reaches exactly one work node: \<open>seenNodes\<close>
  pairs distinct input nodes with the addresses of the work store, one for each work node,
  the root with address 0. The work node of an input node has the name and the peer names
  of the input node, the input reference as its only reference, the locator and the ident
  of that name and reference, equal \<open>dependencies\<close> and \<open>originalDependencies\<close>, whose
  entries lead to the work nodes of dependencies of the input node under their names,
  with an entry for the name of every dependency. A later visit of a seen input node
  creates no node: the store keeps its size, \<open>seenNodes\<close> stays as it is, and only the
  parent changes, which gets the work node that is there under its name in both maps.
\<close>

theorem cloneTree_memoizes:
  assumes "wf_input ih tree" and "length ih \<le> fuel"
  shows "(\<exists>h seen. cloneTree fuel ih tree = Some (h, 0)
            \<and> cloneTree_nodes fuel ih tree = Some (h, seen) \<and> map_get seen tree = Some 0
            \<and> clone_inv ih (h, seen) \<and> clone_complete ih (h, seen)
            \<and> (\<forall>(i, w) \<in> set seen.
                  name (h ! w) = t_name (ih ! i)
                  \<and> references (h ! w) = [t_reference (ih ! i)]
                  \<and> peerNames (h ! w) = t_peerNames (ih ! i)
                  \<and> locator (h ! w) = t_name (ih ! i) @ ''@'' @ t_reference (ih ! i)
                  \<and> ident (h ! w) = t_name (ih ! i) @ ''@'' @ realReference (t_reference (ih ! i))
                  \<and> originalDependencies (h ! w) = dependencies (h ! w)
                  \<and> hoistedDependencies (h ! w) = [] \<and> relayedDependencies (h ! w) = []
                  \<and> reasons (h ! w) = []))
         \<and> (\<forall>n node parentNode h seenNodes w.
               map_get seenNodes node = Some w \<and> parentNode < length h \<longrightarrow>
               (\<exists>h'. addNode (Suc n) ih node parentNode (h, seenNodes) = Some (h', seenNodes)
                  \<and> length h' = length h
                  \<and> map_get (dependencies (h' ! parentNode)) (name (h ! w)) = Some w
                  \<and> map_get (originalDependencies (h' ! parentNode)) (name (h ! w)) = Some w
                  \<and> (\<forall>a. a \<noteq> parentNode \<longrightarrow> h' ! a = h ! a)))"
proof -
  from cloneTree_nodes_correct[OF assms] obtain h seen where
    run: "cloneTree_nodes fuel ih tree = Some (h, seen)" and root: "map_get seen tree = Some 0"
    and inv: "clone_inv ih (h, seen)" and comp: "clone_complete ih (h, seen)" by blast
  have fields: "name (h ! w) = t_name (ih ! i)
        \<and> references (h ! w) = [t_reference (ih ! i)]
        \<and> peerNames (h ! w) = t_peerNames (ih ! i)
        \<and> locator (h ! w) = t_name (ih ! i) @ ''@'' @ t_reference (ih ! i)
        \<and> ident (h ! w) = t_name (ih ! i) @ ''@'' @ realReference (t_reference (ih ! i))
        \<and> originalDependencies (h ! w) = dependencies (h ! w)
        \<and> hoistedDependencies (h ! w) = [] \<and> relayedDependencies (h ! w) = []
        \<and> reasons (h ! w) = []"
    if iw: "(i, w) \<in> set seen" for i w
  proof -
    from clone_inv_node[OF inv iw] have e: "h ! w = workNodeOf ih i (dependencies (h ! w))" .
    show ?thesis by (subst e, simp add: workNodeOf_def)+
  qed
  have first: "\<exists>h seen. cloneTree fuel ih tree = Some (h, 0)
            \<and> cloneTree_nodes fuel ih tree = Some (h, seen) \<and> map_get seen tree = Some 0
            \<and> clone_inv ih (h, seen) \<and> clone_complete ih (h, seen)
            \<and> (\<forall>(i, w) \<in> set seen.
                  name (h ! w) = t_name (ih ! i)
                  \<and> references (h ! w) = [t_reference (ih ! i)]
                  \<and> peerNames (h ! w) = t_peerNames (ih ! i)
                  \<and> locator (h ! w) = t_name (ih ! i) @ ''@'' @ t_reference (ih ! i)
                  \<and> ident (h ! w) = t_name (ih ! i) @ ''@'' @ realReference (t_reference (ih ! i))
                  \<and> originalDependencies (h ! w) = dependencies (h ! w)
                  \<and> hoistedDependencies (h ! w) = [] \<and> relayedDependencies (h ! w) = []
                  \<and> reasons (h ! w) = [])"
  proof (intro exI conjI)
    show "cloneTree fuel ih tree = Some (h, 0)" using run by (simp add: cloneTree_def)
    show "cloneTree_nodes fuel ih tree = Some (h, seen)" by (rule run)
    show "map_get seen tree = Some 0" by (rule root)
    show "clone_inv ih (h, seen)" by (rule inv)
    show "clone_complete ih (h, seen)" by (rule comp)
    show "\<forall>(i, w) \<in> set seen.
                  name (h ! w) = t_name (ih ! i)
                  \<and> references (h ! w) = [t_reference (ih ! i)]
                  \<and> peerNames (h ! w) = t_peerNames (ih ! i)
                  \<and> locator (h ! w) = t_name (ih ! i) @ ''@'' @ t_reference (ih ! i)
                  \<and> ident (h ! w) = t_name (ih ! i) @ ''@'' @ realReference (t_reference (ih ! i))
                  \<and> originalDependencies (h ! w) = dependencies (h ! w)
                  \<and> hoistedDependencies (h ! w) = [] \<and> relayedDependencies (h ! w) = []
                  \<and> reasons (h ! w) = []"
      using fields by blast
  qed
  have second: "\<forall>n node parentNode h seenNodes w.
               map_get seenNodes node = Some w \<and> parentNode < length h \<longrightarrow>
               (\<exists>h'. addNode (Suc n) ih node parentNode (h, seenNodes) = Some (h', seenNodes)
                  \<and> length h' = length h
                  \<and> map_get (dependencies (h' ! parentNode)) (name (h ! w)) = Some w
                  \<and> map_get (originalDependencies (h' ! parentNode)) (name (h ! w)) = Some w
                  \<and> (\<forall>a. a \<noteq> parentNode \<longrightarrow> h' ! a = h ! a))"
    using addNode_seen by blast
  from first second show ?thesis by (rule conjI)
qed

theorem cloneTree_memoizes_witness:
  "wf_input selfDependent 0 \<and> length selfDependent \<le> 3
   \<and> cloneTree 3 selfDependent 0 = Some (selfDependent_work, 0)
   \<and> cloneTree_nodes 3 selfDependent 0 = Some (selfDependent_work, [(0, 0), (1, 1), (2, 2)])
   \<and> clone_inv selfDependent (selfDependent_work, [(0, 0), (1, 1), (2, 2)])
   \<and> clone_complete selfDependent (selfDependent_work, [(0, 0), (1, 1), (2, 2)])
   \<and> references (selfDependent_work ! 2) = [t_reference (selfDependent ! 2)]
   \<and> map_get (dependencies (selfDependent_work ! 2)) ''A'' = Some 1"
proof -
  have a: "wf_input selfDependent 0"
    by (simp add: wf_input_def selfDependent_def less_Suc_eq numeral_3_eq_3 all_conj_distrib)
  have b: "length selfDependent \<le> 3" by (simp add: selfDependent_def)
  have run: "cloneTree_nodes 3 selfDependent 0 = Some (selfDependent_work, [(0, 0), (1, 1), (2, 2)])"
    by code_simp
  have m: "map_get (dependencies (selfDependent_work ! 2)) ''A'' = Some 1" by code_simp
  from cloneTree_memoizes[OF a b] obtain h seen where
    c: "cloneTree 3 selfDependent 0 = Some (h, 0)"
    and n: "cloneTree_nodes 3 selfDependent 0 = Some (h, seen)"
    and inv: "clone_inv selfDependent (h, seen)" and comp: "clone_complete selfDependent (h, seen)"
    and f: "\<forall>(i, w) \<in> set seen. references (h ! w) = [t_reference (selfDependent ! i)]"
    by fast
  from n run have eq: "h = selfDependent_work" "seen = [(0, 0), (1, 1), (2, 2)]" by simp_all
  from f have "references (selfDependent_work ! 2) = [t_reference (selfDependent ! 2)]"
    unfolding eq by simp
  with a b c inv comp run m show ?thesis unfolding eq by blast
qed

section \<open>Candidates at the root\<close>









































section \<open>The preferred candidate of a search\<close>































section \<open>Recursion into the dependencies of a root\<close>

lemmas eval_defs = Let_def newWorkNode_def linkDependency_def makeIdent_def makeLocator_def
  map_values_def set_has_def set_add_def substring_def

lemma clone_selfDependent:
  "cloneTree n selfDependent 0 = None \<or> cloneTree n selfDependent 0 = Some (selfDependent_work, 0)"
proof (cases n)
  case 0 then show ?thesis by (simp add: cloneTree_def cloneTree_nodes_def selfDependent_def eval_defs)
next
  case (Suc a)
  show ?thesis
  proof (cases a)
    case 0 with Suc show ?thesis by (simp add: cloneTree_def cloneTree_nodes_def selfDependent_def eval_defs)
  next
    case (Suc b)
    note b = this
    show ?thesis
    proof (cases b)
      case 0 with \<open>n = Suc a\<close> b show ?thesis 
        by (simp add: cloneTree_def cloneTree_nodes_def selfDependent_def eval_defs)
    next
      case (Suc c) with \<open>n = Suc a\<close> b show ?thesis 
        by (simp add: cloneTree_def cloneTree_nodes_def selfDependent_def selfDependent_work_def eval_defs)
    qed
  qed
qed

lemma ancestors_selfDependent:
  "buildAncestorMap n selfDependent_work 0 = None
   \<or> buildAncestorMap n selfDependent_work 0 = Some selfDependent_ancestors"
proof (cases n)
  case 0 then show ?thesis by (simp add: buildAncestorMap_def selfDependent_work_def eval_defs)
next
  case (Suc a)
  show ?thesis
  proof (cases a)
    case 0 with Suc show ?thesis by (simp add: buildAncestorMap_def selfDependent_work_def eval_defs)
  next
    case (Suc b)
    note b = this
    show ?thesis
    proof (cases b)
      case 0 with \<open>n = Suc a\<close> b show ?thesis 
        by (simp add: buildAncestorMap_def selfDependent_work_def eval_defs)
    next
      case (Suc c) with \<open>n = Suc a\<close> b show ?thesis 
        by (simp add: buildAncestorMap_def selfDependent_work_def selfDependent_ancestors_def eval_defs)
    qed
  qed
qed

lemmas finder_defs = getHoistCandidates_def candidatesBelow_def visitNode_def rejection_def
  isRegularDepAtRoot_def isCompatibleIdent_def origRootDepFits_def tuple_node_def tuple_parent_def
  selfDependent_work_def selfDependent_ancestors_def quiet_def eval_defs

lemma finder_at_1:
  "getHoistCandidates k selfDependent_work 1 path ad selfDependent_ancestors quiet = None
   \<or> getHoistCandidates k selfDependent_work 1 path ad selfDependent_ancestors quiet = Some (Inr ([], selfDependent_work))"
  by (cases k) (simp_all add: finder_defs)

lemma finder_at_2:
  "getHoistCandidates k selfDependent_work 2 path ad selfDependent_ancestors quiet = None
   \<or> getHoistCandidates k selfDependent_work 2 path ad selfDependent_ancestors quiet = Some (Inr ([], selfDependent_work))"
  by (cases k) (simp_all add: finder_defs)

lemma finder_at_0:
  "getHoistCandidates k selfDependent_work 0 path ad selfDependent_ancestors quiet = None
   \<or> getHoistCandidates k selfDependent_work 0 path ad selfDependent_ancestors quiet = Some (Inr ([], selfDependent_work))"
  by (cases k) (simp_all add: finder_defs)

lemma passes_no_candidates:
  assumes "\<And>k. getHoistCandidates k W r path ad am opts = None
            \<or> getHoistCandidates k W r path ad am opts = Some (Inr ([], W))"
  shows "hoistPasses m tree r path am opts (ct, ad, W) = None
         \<or> hoistPasses m tree r path am opts (ct, ad, W) = Some (Inr (ct, ad, W))"
proof (cases m)
  case 0 then show ?thesis by simp
next
  case (Suc k)
  from assms[of k] show ?thesis using Suc by auto
qed

lemma hoistTo_never_returns:
  "hoistTo n 0 1 ad selfDependent_ancestors quiet [] (selfDependent_work, path) = None
   \<and> hoistTo n 0 2 ad selfDependent_ancestors quiet [] (selfDependent_work, path) = None"
proof (induction n arbitrary: ad path rule: less_induct)
  case (less n)
  have deps1: "map_values (dependencies (selfDependent_work ! Suc 0)) = [2]"
    and deps2: "map_values (dependencies (selfDependent_work ! 2)) = [Suc 0]"
    and nm1: "name (selfDependent_work ! Suc 0) = ''A''" and nm2: "name (selfDependent_work ! 2) = ''A''"
    and pn1: "peerNames (selfDependent_work ! Suc 0) = []" and pn2: "peerNames (selfDependent_work ! 2) = []"
    by (simp_all add: selfDependent_work_def map_values_def)
  show ?case
  proof (cases n)
    case 0 then show ?thesis by simp
  next
    case (Suc m)
    have c1: "hoistChildren m 0 1 ad' selfDependent_ancestors quiet 0 (selfDependent_work, path') = None" for ad' path'
    proof (cases m)
      case 0 then show ?thesis by simp
    next
      case (Suc j)
      have "j < n" using Suc \<open>n = Suc m\<close> by simp
      from less[OF this] show ?thesis using Suc by (simp add: deps1 nm2 pn1 set_has_def Let_def)
    qed
    have c2: "hoistChildren m 0 2 ad' selfDependent_ancestors quiet 0 (selfDependent_work, path') = None" for ad' path'
    proof (cases m)
      case 0 then show ?thesis by simp
    next
      case (Suc j)
      have "j < n" using Suc \<open>n = Suc m\<close> by simp
      from less[OF this] show ?thesis using Suc by (simp add: deps2 nm1 pn2 set_has_def Let_def)
    qed
    have p1: "hoistPasses m 0 1 path selfDependent_ancestors quiet (CloneTree 1 [], ad', selfDependent_work) = None
         \<or> hoistPasses m 0 1 path selfDependent_ancestors quiet (CloneTree 1 [], ad', selfDependent_work)
             = Some (Inr (CloneTree 1 [], ad', selfDependent_work))" for ad'
      by (rule passes_no_candidates) (rule finder_at_1)
    have p2: "hoistPasses m 0 2 path selfDependent_ancestors quiet (CloneTree 2 [], ad', selfDependent_work) = None
         \<or> hoistPasses m 0 2 path selfDependent_ancestors quiet (CloneTree 2 [], ad', selfDependent_work)
             = Some (Inr (CloneTree 2 [], ad', selfDependent_work))" for ad'
      by (rule passes_no_candidates) (rule finder_at_2)
    show ?thesis
      using Suc p1[of "overlayDependencies selfDependent_work 1 ad"] p2[of "overlayDependencies selfDependent_work 2 ad"] c1 c2
      by (auto simp: set_has_def Let_def)
  qed
qed

lemma hoistTo_root_never_returns:
  "hoistTo n 0 0 [] selfDependent_ancestors quiet [] (selfDependent_work, [0]) = None"
proof (cases n)
  case 0 then show ?thesis by simp
next
  case (Suc m)
  have deps0: "map_values (dependencies (selfDependent_work ! 0)) = [Suc 0]"
    and nm1: "name (selfDependent_work ! Suc 0) = ''A''"
    and pn0: "peerNames (selfDependent_work ! 0) = []"
    by (simp_all add: selfDependent_work_def map_values_def)
  have c0: "hoistChildren m 0 0 ad' selfDependent_ancestors quiet 0 (selfDependent_work, path') = None" for ad' path'
  proof (cases m)
    case 0 then show ?thesis by simp
  next
    case (Suc j)
    from hoistTo_never_returns [of j ad' "set_add (Suc 0) path'"] show ?thesis
      using Suc by (simp add: deps0 nm1 pn0 set_has_def Let_def)
  qed
  have p0: "hoistPasses m 0 0 [0] selfDependent_ancestors quiet (CloneTree 0 [], ad', selfDependent_work) = None
       \<or> hoistPasses m 0 0 [0] selfDependent_ancestors quiet (CloneTree 0 [], ad', selfDependent_work)
           = Some (Inr (CloneTree 0 [], ad', selfDependent_work))" for ad'
    by (rule passes_no_candidates) (rule finder_at_0)
  show ?thesis
    using Suc p0 [of "overlayDependencies selfDependent_work 0 []"] c0
    by (auto simp: set_has_def Let_def)
qed


text \<open>
  C1. The claim: \<open>hoist\<close> terminates on every finite input, cyclic ones included, because
  the seen-roots set lets the recursion visit each work node at most once.
  The recursive call of line 184 does not pass \<open>seenNodes\<close>, so each call starts from an
  empty set and the guard of line 114 never holds. On the input \<open>selfDependent\<close> the
  clone and the ancestor map are built with fuel 3, the candidate search at the root, at
  \<open>A@1\<close> and at \<open>A@2\<close> finds nothing (each is blocked by the original dependency of
  the root on the other version), the store never changes, and \<open>hoistTo\<close> at the root
  does not return for any fuel: it recurses from \<open>A@1\<close> to \<open>A@2\<close> and back for ever.
\<close>

theorem hoistTo_diverges_on_cycle:
  "cloneTree 3 selfDependent 0 = Some (selfDependent_work, 0)
   \<and> buildAncestorMap 3 selfDependent_work 0 = Some selfDependent_ancestors
   \<and> (\<forall>fuel. hoistTo fuel 0 0 [] selfDependent_ancestors quiet [] (selfDependent_work, [0]) = None)"
proof -
  have a: "cloneTree 3 selfDependent 0 = Some (selfDependent_work, 0)"
    by (simp add: cloneTree_def cloneTree_nodes_def selfDependent_def selfDependent_work_def
          eval_defs eval_nat_numeral)
  have b: "buildAncestorMap 3 selfDependent_work 0 = Some selfDependent_ancestors"
    by (simp add: buildAncestorMap_def selfDependent_work_def selfDependent_ancestors_def
          eval_defs eval_nat_numeral)
  have c: "hoistTo fuel 0 0 [] selfDependent_ancestors quiet [] (selfDependent_work, [0]) = None" for fuel
    by (rule hoistTo_root_never_returns)
  from a b c show ?thesis by blast
qed

text \<open>
  C9. The claim: with the check disabled and a debug level below 1, \<open>hoist\<close> returns a
  result and never throws, on every finite input graph.
  On the input \<open>selfDependent\<close>, called without options, \<open>hoist\<close> returns nothing for
  any fuel: the recursion of \<open>hoistTo\<close> does not end (in JavaScript the stack
  overflows and a \<open>RangeError\<close> is thrown).
\<close>

theorem hoist_never_returns_on_cycle:
  "\<forall>fuel. hoist fuel toNumber None 0 \<lparr> opt_check = None, opt_debugLevel = None \<rparr>
            \<lparr> inputs = selfDependent, work = [], results = [] \<rparr> = None"
proof
  fix fuel
  have opts: "internalOptions toNumber None \<lparr> opt_check = None, opt_debugLevel = None \<rparr> = quiet"
    by (simp add: internalOptions_def effectiveDebugLevel_def envDebugLevel_def quiet_def)
  from clone_selfDependent [of fuel] ancestors_selfDependent [of fuel]
       hoistTo_root_never_returns [of fuel]
  show "hoist fuel toNumber None 0 \<lparr> opt_check = None, opt_debugLevel = None \<rparr>
            \<lparr> inputs = selfDependent, work = [], results = [] \<rparr> = None"
    by (auto simp: hoist_def opts)
qed

section \<open>The shrinker and the peer names of the root\<close>

text \<open>
  C10. The claim: the shrinker omits every dependency whose name is a peer name of the
  parent work node, so no output node has a child that comes from a peer edge.
  The loop of \<open>shrinkTree\<close> over the dependencies of the root (line 507) has no test of
  \<open>tree.peerNames\<close>, unlike the loop of its \<open>addNode\<close> (line 500) and the loops over the
  root of \<open>buildAncestorMap\<close> and \<open>getHoistCandidates\<close>. On the input \<open>rootPeer\<close> the
  name \<open>P\<close> is a peer name of the root and \<open>P@1\<close>, whose only incoming edge is that peer
  edge, is a child of the root of the result.
\<close>

theorem shrinkTree_keeps_root_peer:
  "resultChildren (hoist 5 (\<lambda>s. NaN) None 0 \<lparr> opt_check = None, opt_debugLevel = None \<rparr>
                     \<lparr> inputs = rootPeer, work = [], results = [] \<rparr>)
     = Some [(''P'', [''1''])]
   \<and> set_has (t_peerNames (rootPeer ! 0)) ''P''"
  by code_simp

section \<open>The self check and peer names\<close>

text \<open>
  In \<open>checkNode\<close> the map \<open>dependencies\<close> is a copy of \<open>parentDeps\<close> in which only names
  that are not peer names of the node are set. For a peer name the two lookups of lines 382
  and 385 give the same node, so the test of line 386 never holds: whatever the store, the
  peer branch adds nothing to the log and does not throw.
\<close>

lemma overlay_keeps_peer_names:
  "set_has pn nm \<Longrightarrow>
   map_get (foldl (\<lambda>m dep. if \<not> set_has pn (name (h ! dep)) then map_set (name (h ! dep)) dep m else m) base ds) nm
     = map_get base nm"
  by (induction ds arbitrary: base) (auto simp: map_get_map_set)

lemma peer_branch_is_silent:
  "set_has (peerNames (h ! node)) (name (h ! origDep)) \<Longrightarrow>
   checkPromise h parents node parentDeps (overlayDependencies h node parentDeps) origDep log = Some (Inr log)"
  by (simp add: checkPromise_def overlayDependencies_def overlay_keeps_peer_names Let_def)

text \<open>
  C3. The claim: \<open>selfCheck\<close> returns the empty string exactly when every original
  dependency is satisfied, and it returns a log with a broken peer promise when, for a peer
  name with an original dependency, the node does not resolve the name to the object its
  parent resolves it to.
  In \<open>unmetPeer_work\<close> the node \<open>X@1\<close> has the peer name \<open>P\<close> with the original
  dependency \<open>P@1\<close>, and its parent, the root, resolves no \<open>P\<close> at all. \<open>selfCheck\<close>
  returns the empty string, and \<open>hoist\<close> at debug level 1, which runs the final check,
  returns its result: no broken peer promise is reported.
\<close>

theorem selfCheck_misses_unmet_peer:
  "cloneTree 3 unmetPeer 0 = Some (unmetPeer_work, 0)
   \<and> set_has (peerNames (unmetPeer_work ! 1)) ''P''
   \<and> map_get (originalDependencies (unmetPeer_work ! 1)) ''P'' = Some 2
   \<and> map_get (dependencies (unmetPeer_work ! 0)) ''P'' = None
   \<and> selfCheck 3 unmetPeer_work 0 = Some (Inr [])
   \<and> resultChildren (hoist 6 (\<lambda>s. NaN) None 0 \<lparr> opt_check = None, opt_debugLevel = Some (Num 1) \<rparr>
                        \<lparr> inputs = unmetPeer, work = [], results = [] \<rparr>)
        = Some [(''X'', [''1''])]"
  by code_simp

end
